theory Spec2Isabelle
  imports Main "HOL-Library.AList"
begin

section \<open>Values, timestamps, log events\<close>

text \<open>
  A JavaScript value that is either a string or \<^verbatim>\<open>undefined\<close>: the value of a
  named capture group, the label of an execution, the text of an event.
\<close>

datatype jsval = Undefined | Str string

text \<open>
  A JavaScript object used as a dictionary is an association list of its own
  properties in insertion order, an assignment to an existing key keeping its place
  (\<open>AList.update\<close>), \<^verbatim>\<open>delete\<close> removing the entry (\<open>AList.delete\<close>), a read of a
  missing key giving \<^verbatim>\<open>undefined\<close> (\<open>map_of\<close> giving \<open>None\<close>).

  A loop \<^verbatim>\<open>for (k in obj)\<close> visits the keys that are array indices first, in ascending
  numeric order, and then the other keys in insertion order. An array index is the
  decimal numeral, without leading zeros, of a number below \<open>2^32 - 1\<close>. \<open>forIn key xs\<close>
  is the order in which the loop visits the entries \<open>xs\<close>, \<open>key\<close> giving the key of an
  entry.
\<close>

definition isDigit :: "char \<Rightarrow> bool" where
  "isDigit c = (c \<in> set ''0123456789'')"

definition indexValue :: "string \<Rightarrow> nat" where
  "indexValue s = foldl (\<lambda>n c. 10 * n + (of_char c - 48)) 0 s"

definition isArrayIndex :: "string \<Rightarrow> bool" where
  "isArrayIndex s =
     (s \<noteq> [] \<and> list_all isDigit s \<and> (hd s \<noteq> CHR ''0'' \<or> s = ''0'') \<and> indexValue s < 4294967295)"

definition forIn :: "('a \<Rightarrow> string) \<Rightarrow> 'a list \<Rightarrow> 'a list" where
  "forIn key xs =
     sort_key (\<lambda>x. indexValue (key x)) (filter (\<lambda>x. isArrayIndex (key x)) xs) @
     filter (\<lambda>x. \<not> isArrayIndex (key x)) xs"

text \<open>
  The dictionaries of the two source files are plain objects (\<^verbatim>\<open>{}\<close>): a read of a key
  that is not an own property but names a member of \<^verbatim>\<open>Object.prototype\<close> gives that
  member, a function or an object, which is neither \<^verbatim>\<open>undefined\<close> nor false. This
  decides the tests \<^verbatim>\<open>hostSet[host] == undefined\<close> of \<^verbatim>\<open>initHosts\<close> and
  \<^verbatim>\<open>this.executions[currlabel]\<close> of the log parser.
\<close>

definition inherited :: "string \<Rightarrow> bool" where
  "inherited k =
     (k \<in> set [''constructor'', ''hasOwnProperty'', ''isPrototypeOf'', ''propertyIsEnumerable'',
                ''toLocaleString'', ''toString'', ''valueOf'', ''__proto__'', ''__defineGetter__'',
                ''__defineSetter__'', ''__lookupGetter__'', ''__lookupSetter__''])"

text \<open>
  \<^verbatim>\<open>VectorTimestamp\<close>: the fields \<^verbatim>\<open>clock\<close>, \<^verbatim>\<open>host\<close> and \<^verbatim>\<open>ownTime\<close> that
  \<^verbatim>\<open>modelGraph.js\<close> reads (\<^verbatim>\<open>currVT.clock\<close>, \<^verbatim>\<open>getOwnHost()\<close>, \<^verbatim>\<open>currVT.ownTime\<close>).
\<close>

record VectorTimestamp =
  clock :: "(string \<times> int) list"
  ownHost :: string
  ownTime :: int

text \<open>\<^verbatim>\<open>new LogEvent(event, timestamp, ln, fields)\<close>; \<open>efields\<close> is the field map.\<close>

record LogEvent =
  "text" :: jsval
  vectorTimestamp :: VectorTimestamp
  lineNumber :: nat
  efields :: "(string \<times> jsval) list"

definition getHost :: "LogEvent \<Rightarrow> string" where
  "getHost e = ownHost (vectorTimestamp e)"

section \<open>Errors\<close>

text \<open>
  Every \<^verbatim>\<open>throw\<close> of the two source files is a constructor. The graph builder's
  exceptions are named after the functions that build them
  (\<^verbatim>\<open>getClockIncrementException(node, lastNode)\<close> attaches the event of \<^verbatim>\<open>lastNode\<close>,
  then the event of \<^verbatim>\<open>node\<close>; \<^verbatim>\<open>getOutOfBoundsTimeException(node, host, time)\<close>
  attaches the event of \<^verbatim>\<open>node\<close>). \<open>TypeError\<close> is the error the JavaScript runtime
  raises when a property of \<^verbatim>\<open>undefined\<close> or \<^verbatim>\<open>null\<close> is read.
  \<open>TimestampFormatError n a u\<close> is the exception of \<^verbatim>\<open>parseStringTimestamp\<close>: the
  message names line \<open>n\<close>, \<open>a\<close> is the text appended as code (if any), \<open>u\<close> the
  user-friendly flag. \<open>TimestampContentError c\<close> is the exception of the
  \<^verbatim>\<open>VectorTimestamp\<close> constructor as \<^verbatim>\<open>parseJsonTimestamp\<close> throws it again, with the
  parsed clock \<open>c\<close> appended.
\<close>

text \<open>
  What \<^verbatim>\<open>JSON.parse\<close> returns for a clock: an object whose values are integers, held
  as doubles (see the subsection on numbers), or any other JSON value.
\<close>

datatype json = JObject "(string \<times> int) list" | JOther

datatype error =
    ClockIncrementError LogEvent LogEvent
  | OutOfBoundsTimeError LogEvent string int
  | IntransitivityError
  | ImpermissibleClockError LogEvent "(string \<times> int) list"
  | TimestampFormatError nat "string option" bool
  | TimestampContentError json
  | NoEventsParsedError jsval
  | DuplicateExecutionLabelError jsval
  | MissingCaptureGroupsError
  | TypeError

section \<open>Nodes, the heap, the graph\<close>

text \<open>
  A node is an object on the JavaScript heap; a reference to it is its address, a
  natural number. \<^verbatim>\<open>hostToParent\<close> is the per-host dictionary that
  \<^verbatim>\<open>initParentChild\<close> reads (\<^verbatim>\<open>currNode.hostToParent[node.getHost()]\<close>).
\<close>

record ModelNode =
  logEvents :: "LogEvent list"
  host :: string
  prev :: "nat option"
  "next" :: "nat option"
  hostToParent :: "(string \<times> nat) list"
  children :: "nat list"
  isHeadInner :: bool
  isTailInner :: bool

text \<open>
  Modelled from the spec: the \<^verbatim>\<open>ModelNode\<close> constructor is not among the sources. A new
  node wraps the given events and has no neighbours, parents or children.
\<close>

definition new_ModelNode :: "LogEvent list \<Rightarrow> ModelNode" where
  "new_ModelNode evs =
     \<lparr>logEvents = evs, host = [], prev = None, next = None,
      hostToParent = [], children = [], isHeadInner = False, isTailInner = False\<rparr>"

text \<open>The heap: the cells allocated so far, and the number of them (the next address).\<close>

record heap =
  cells :: "nat \<Rightarrow> ModelNode"
  count :: nat

definition empty_heap :: heap where
  "empty_heap = \<lparr>cells = (\<lambda>_. new_ModelNode []), count = 0\<rparr>"

definition alloc :: "ModelNode \<Rightarrow> heap \<Rightarrow> nat \<times> heap" where
  "alloc n h = (count h, \<lparr>cells = (cells h)(count h := n), count = Suc (count h)\<rparr>)"

definition modify :: "nat \<Rightarrow> (ModelNode \<Rightarrow> ModelNode) \<Rightarrow> heap \<Rightarrow> heap" where
  "modify a f h = h\<lparr>cells := (cells h)(a := f (cells h a))\<rparr>"

text \<open>
  \<^verbatim>\<open>AbstractGraph\<close> is not among the sources; its fields are the ones the source
  assigns (\<^verbatim>\<open>mg.hosts\<close>, \<^verbatim>\<open>mg.hostToHead\<close>, \<^verbatim>\<open>mg.hostToTail\<close>). Modelled from the spec:
  the graph owns its full node set; \<open>nodes\<close> lists the nodes whose \<^verbatim>\<open>graph\<close> field was
  set to this graph, in that order, and is what \<^verbatim>\<open>getAllNodes()\<close> returns.
\<close>

record graph =
  hosts :: "string list"
  hostToHead :: "(string \<times> nat) list"
  hostToTail :: "(string \<times> nat) list"
  nodes :: "nat list"

definition new_graph :: graph where
  "new_graph = \<lparr>hosts = [], hostToHead = [], hostToTail = [], nodes = []\<rparr>"

text \<open>
  The state of one run of the constructor \<^verbatim>\<open>ModelGraph(logEvents)\<close>: the heap, the graph
  under construction \<^verbatim>\<open>mg\<close>, and the constructor's local dictionaries.
\<close>

record builder =
  hp :: heap
  mg :: graph
  hostToNodes :: "(string \<times> nat list) list"
  hostToStartTime :: "(string \<times> int) list"
  hostSet :: "string list"

definition new_builder :: "heap \<Rightarrow> builder" where
  "new_builder h = \<lparr>hp = h, mg = new_graph, hostToNodes = [], hostToStartTime = [], hostSet = []\<rparr>"

text \<open>Allocate a node and set its \<^verbatim>\<open>host\<close> and \<^verbatim>\<open>graph\<close> fields.\<close>

definition add_node :: "ModelNode \<Rightarrow> builder \<Rightarrow> nat \<times> builder" where
  "add_node n b =
     (let (a, h) = alloc n (hp b)
      in (a, b\<lparr>hp := h, mg := (mg b)\<lparr>nodes := nodes (mg b) @ [a]\<rparr>\<rparr>))"

subsection \<open>initHosts\<close>

definition initHosts_step :: "builder \<Rightarrow> LogEvent \<Rightarrow> builder" where
  "initHosts_step b logEvent =
     (let h = getHost logEvent;
          (node, b1) = add_node ((new_ModelNode [logEvent])\<lparr>host := h\<rparr>) b;
          b2 = (if h \<notin> set (hostSet b1) then
                  (let hd_addr = count (hp b1);
                       tl_addr = Suc (count (hp b1));
                       (hd', b') = add_node ((new_ModelNode [])
                           \<lparr>host := h, prev := None, next := Some tl_addr, isHeadInner := True\<rparr>) b1;
                       (tl', b'') = add_node ((new_ModelNode [])
                           \<lparr>host := h, prev := Some hd_addr, next := None, isTailInner := True\<rparr>) b'
                   in b''\<lparr>hostSet := hostSet b'' @ [h],
                          mg := (mg b'')\<lparr>hosts := hosts (mg b'') @ [h],
                                         hostToHead := AList.update h hd' (hostToHead (mg b'')),
                                         hostToTail := AList.update h tl' (hostToTail (mg b''))\<rparr>,
                          hostToNodes := AList.update h [] (hostToNodes b'')\<rparr>)
                else b1)
      in b2\<lparr>hostToNodes :=
              AList.update h ((case map_of (hostToNodes b2) h of None \<Rightarrow> [] | Some arr \<Rightarrow> arr) @ [node])
                (hostToNodes b2)\<rparr>)"

definition initHosts :: "builder \<Rightarrow> LogEvent list \<Rightarrow> builder" where
  "initHosts b evs = foldl initHosts_step b evs"

subsection \<open>Numbers\<close>

text \<open>
  A JavaScript number is an IEEE 754 double. A logical time is an integer (so the spec
  has it; the \<^verbatim>\<open>VectorTimestamp\<close> constructor is not among the sources), so the times
  the code holds are the integers that are doubles: every integer up to \<open>2^53\<close> in
  magnitude, and beyond that the multiples of the unit of their binade.
  \<open>nearest_double x\<close> is the double nearest to the integer \<open>x\<close>, the one with the even
  significand when two are equally near: it is what \<^verbatim>\<open>+\<close>, \<^verbatim>\<open>-\<close> and \<^verbatim>\<open>++\<close> return when
  the exact result is \<open>x\<close>. \<open>bitlen m\<close> is the number of binary digits of \<open>m\<close>; a double
  has 53 significant ones. The constructor adds 1, subtracts 1, adds an array length and
  subtracts a window start from a time within the window: from finite doubles these stay
  finite. On integers that are not doubles, which the code cannot hold, \<open>double_add\<close> and
  \<open>double_sub\<close> are exact.
\<close>

fun bitlen :: "nat \<Rightarrow> nat" where
  "bitlen n = (if n = 0 then 0 else Suc (bitlen (n div 2)))"

declare bitlen.simps [simp del]

definition nearest_nat :: "nat \<Rightarrow> nat" where
  "nearest_nat m =
     (let e = bitlen m - 53; q = m div 2 ^ e; r = m mod 2 ^ e
      in if 2 ^ e < 2 * r \<or> (2 ^ e = 2 * r \<and> odd q) then (q + 1) * 2 ^ e else q * 2 ^ e)"

definition nearest_double :: "int \<Rightarrow> int" where
  "nearest_double x = sgn x * int (nearest_nat (nat \<bar>x\<bar>))"

definition is_double :: "int \<Rightarrow> bool" where
  "is_double x = (nearest_double x = x)"

definition double_add :: "int \<Rightarrow> int \<Rightarrow> int" where
  "double_add a b = (if is_double a \<and> is_double b then nearest_double (a + b) else a + b)"

definition double_sub :: "int \<Rightarrow> int \<Rightarrow> int" where
  "double_sub a b = (if is_double a \<and> is_double b then nearest_double (a - b) else a - b)"

subsection \<open>initPrevNext\<close>

definition getFirstLogEvent :: "heap \<Rightarrow> nat \<Rightarrow> LogEvent option" where
  "getFirstLogEvent h a = (case logEvents (cells h a) of [] \<Rightarrow> None | e # _ \<Rightarrow> Some e)"

definition getVT :: "heap \<Rightarrow> nat \<Rightarrow> VectorTimestamp option" where
  "getVT h a = map_option vectorTimestamp (getFirstLogEvent h a)"

definition getTime :: "heap \<Rightarrow> nat \<Rightarrow> int option" where
  "getTime h a = map_option ownTime (getVT h a)"

text \<open>
  \<^verbatim>\<open>getClockIncrementException(node, lastNode)\<close>; \<^verbatim>\<open>lastNode\<close> is \<^verbatim>\<open>array[i - 1]\<close>, which
  is \<^verbatim>\<open>undefined\<close> when \<open>i = 0\<close>.
\<close>

definition getClockIncrementException :: "heap \<Rightarrow> nat \<Rightarrow> nat option \<Rightarrow> error" where
  "getClockIncrementException h node lastNode =
     (case lastNode of
        None \<Rightarrow> TypeError
      | Some l \<Rightarrow>
          (case (getFirstLogEvent h l, getFirstLogEvent h node) of
             (Some le, Some ne) \<Rightarrow> ClockIncrementError le ne
           | _ \<Rightarrow> TypeError))"

text \<open>
  The loop \<^verbatim>\<open>for (var i = 0; i < array.length; i++)\<close> of lines 98 to 105, on the part of
  the array still to visit; \<open>lastNode\<close> is \<^verbatim>\<open>array[i - 1]\<close>. Both \<^verbatim>\<open>currTime + 1\<close> and
  \<^verbatim>\<open>currTime++\<close> are sums of doubles.
\<close>

fun checkIncrements :: "heap \<Rightarrow> nat option \<Rightarrow> int \<Rightarrow> nat list \<Rightarrow> error + unit" where
  "checkIncrements h lastNode currTime [] = Inr ()"
| "checkIncrements h lastNode currTime (node # rest) =
     (case getTime h node of
        None \<Rightarrow> Inl TypeError
      | Some t \<Rightarrow>
          if t \<noteq> double_add currTime 1 then Inl (getClockIncrementException h node lastNode)
          else checkIncrements h (Some node) (double_add currTime 1) rest)"

text \<open>
  \<^verbatim>\<open>array.sort(function(a, b) { return getVT(a).compareToLocal(getVT(b)); })\<close>.
  \<^verbatim>\<open>compareToLocal\<close> is not among the sources. Modelled from the spec: it compares the
  two timestamps' own local times only. \<^verbatim>\<open>Array.prototype.sort\<close> is stable, as
  \<open>sort_key\<close> is. The comparator reads the time of every node, so a node without an
  event makes the sort raise.
\<close>

definition timeOf :: "heap \<Rightarrow> nat \<Rightarrow> int" where
  "timeOf h a = (case getTime h a of None \<Rightarrow> 0 | Some t \<Rightarrow> t)"

definition sortByLocalTime :: "heap \<Rightarrow> nat list \<Rightarrow> error + nat list" where
  "sortByLocalTime h array =
     (if 2 \<le> length array \<and> (\<exists>a \<in> set array. getTime h a = None) then Inl TypeError
      else Inr (sort_key (timeOf h) array))"

text \<open>
  Modelled from the spec: \<^verbatim>\<open>insertNext\<close> is not among the sources. It splices \<open>node\<close>
  into the doubly linked chain right after \<open>this\<close>.
\<close>

definition insertNext :: "nat \<Rightarrow> nat \<Rightarrow> heap \<Rightarrow> error + heap" where
  "insertNext this node h =
     (case next (cells h this) of
        None \<Rightarrow> Inl TypeError
      | Some nx \<Rightarrow>
          Inr (modify this (\<lambda>n. n\<lparr>next := Some node\<rparr>)
                (modify nx (\<lambda>n. n\<lparr>prev := Some node\<rparr>)
                  (modify node (\<lambda>n. n\<lparr>prev := Some this, next := Some nx\<rparr>) h))))"

text \<open>The loop of lines 109 to 113.\<close>

fun insertAll :: "nat \<Rightarrow> nat list \<Rightarrow> heap \<Rightarrow> error + heap" where
  "insertAll lastNode [] h = Inr h"
| "insertAll lastNode (newNode # rest) h =
     (case insertNext lastNode newNode h of
        Inl e \<Rightarrow> Inl e
      | Inr h' \<Rightarrow> insertAll newNode rest h')"

text \<open>The body of \<^verbatim>\<open>for (var host in hostToNodes)\<close>, lines 88 to 113.\<close>

definition initPrevNext_host :: "builder \<Rightarrow> string \<Rightarrow> error + builder" where
  "initPrevNext_host b h =
     (case map_of (hostToNodes b) h of
        None \<Rightarrow> Inl TypeError
      | Some unsorted \<Rightarrow>
          (case sortByLocalTime (hp b) unsorted of
             Inl e \<Rightarrow> Inl e
           | Inr array \<Rightarrow>
               (case (case array of [] \<Rightarrow> Some 0 | a # _ \<Rightarrow> getTime (hp b) a) of
                  None \<Rightarrow> Inl TypeError
                | Some first \<Rightarrow>
                    (let currTime = double_sub first 1;
                         b1 = b\<lparr>hostToNodes := AList.update h array (hostToNodes b),
                                hostToStartTime :=
                                  (if array = [] then hostToStartTime b
                                   else AList.update h currTime (hostToStartTime b))\<rparr>
                     in case checkIncrements (hp b1) None currTime array of
                          Inl e \<Rightarrow> Inl e
                        | Inr _ \<Rightarrow>
                            (case map_of (hostToHead (mg b1)) h of
                               None \<Rightarrow> if array = [] then Inr b1 else Inl TypeError
                             | Some lastNode \<Rightarrow>
                                 (case insertAll lastNode array (hp b1) of
                                    Inl e \<Rightarrow> Inl e
                                  | Inr h' \<Rightarrow> Inr (b1\<lparr>hp := h'\<rparr>)))))))"

fun forEach :: "('s \<Rightarrow> 'k \<Rightarrow> error + 's) \<Rightarrow> 's \<Rightarrow> 'k list \<Rightarrow> error + 's" where
  "forEach f s [] = Inr s"
| "forEach f s (k # ks) = (case f s k of Inl e \<Rightarrow> Inl e | Inr s' \<Rightarrow> forEach f s' ks)"

definition initPrevNext :: "builder \<Rightarrow> error + builder" where
  "initPrevNext b = forEach initPrevNext_host b (forIn id (map fst (hostToNodes b)))"

subsection \<open>initParentChild\<close>

text \<open>
  The body of \<^verbatim>\<open>for (var otherHost in currVT.clock)\<close>, lines 154 to 182. The state is
  the running \<^verbatim>\<open>clock\<close> and the \<^verbatim>\<open>candidates\<close>; \<open>ev\<close> is the first event of
  \<^verbatim>\<open>currNode\<close>, which \<^verbatim>\<open>getOutOfBoundsTimeException\<close> attaches. When
  \<^verbatim>\<open>hostToStartTime[otherHost]\<close> is \<^verbatim>\<open>undefined\<close> the sum and the index are \<^verbatim>\<open>NaN\<close>: the
  comparison is false and the array read gives \<^verbatim>\<open>undefined\<close>. The sum of line 171 and
  the index \<^verbatim>\<open>time - hostToStartTime[otherHost] - 1\<close> are computed on doubles; an index
  that is negative, or not below the array's length, reads \<^verbatim>\<open>undefined\<close>.

  No key of \<^verbatim>\<open>hostSet\<close> names a member of \<^verbatim>\<open>Object.prototype\<close>: the constructor
  raises a \<open>TypeError\<close> at such a host. For a clock entry of such a host the code reads
  the member as \<^verbatim>\<open>clock[otherHost]\<close> and passes over the entry; here the entry is passed
  over as that of a host outside \<^verbatim>\<open>hostSet\<close>: no candidate and no error either way.
\<close>

definition candidateStep ::
  "builder \<Rightarrow> LogEvent \<Rightarrow> (string \<times> int) list \<times> nat list \<Rightarrow> string \<times> int
    \<Rightarrow> error + (string \<times> int) list \<times> nat list" where
  "candidateStep b ev s entry =
     (let (clk, candidates) = s; (otherHost, time) = entry
      in if (case map_of clk otherHost of None \<Rightarrow> True | Some c \<Rightarrow> c < time) then
           (let clk' = AList.update otherHost time clk
            in if otherHost \<notin> set (hostSet b) then Inr (clk', candidates)
               else if time < 1 then Inl (OutOfBoundsTimeError ev otherHost time)
               else (case map_of (hostToNodes b) otherHost of
                       None \<Rightarrow> Inl TypeError
                     | Some arr \<Rightarrow>
                         (case map_of (hostToStartTime b) otherHost of
                            None \<Rightarrow> Inr (clk', candidates)
                          | Some start \<Rightarrow>
                              if time > double_add start (int (length arr))
                              then Inl (OutOfBoundsTimeError ev otherHost time)
                              else (let i = double_sub (double_sub time start) 1
                                    in if i < 0 \<or> int (length arr) \<le> i then Inr (clk', candidates)
                                       else Inr (clk', candidates @ [arr ! nat i])))))
         else Inr (clk, candidates))"

text \<open>
  Lines 185 to 193. The key \<^verbatim>\<open>vt.getOwnHost() + ":" + vt.getOwnTime()\<close> is the pair of
  the host and the time: the time is a number, so the string determines both.
\<close>

fun gatherConnections ::
  "heap \<Rightarrow> nat list \<Rightarrow> ((string \<times> int) \<times> nat) list \<Rightarrow> error + ((string \<times> int) \<times> nat) list" where
  "gatherConnections h [] connections = Inr connections"
| "gatherConnections h (c # cs) connections =
     (case getVT h c of
        None \<Rightarrow> Inl TypeError
      | Some vt \<Rightarrow> gatherConnections h cs (AList.update (ownHost vt, ownTime vt) c connections))"

text \<open>Lines 195 to 203: the inner loop, then the outer one.\<close>

definition deleteImplied ::
  "VectorTimestamp \<Rightarrow> ((string \<times> int) \<times> nat) list \<Rightarrow> ((string \<times> int) \<times> nat) list" where
  "deleteImplied vt connections =
     foldl (\<lambda>cn (otherHost, t). if otherHost \<noteq> ownHost vt then AList.delete (otherHost, t) cn else cn)
       connections (forIn fst (clock vt))"

fun pruneConnections ::
  "heap \<Rightarrow> nat list \<Rightarrow> ((string \<times> int) \<times> nat) list \<Rightarrow> error + ((string \<times> int) \<times> nat) list" where
  "pruneConnections h [] connections = Inr connections"
| "pruneConnections h (c # cs) connections =
     (case getVT h c of
        None \<Rightarrow> Inl TypeError
      | Some vt \<Rightarrow> pruneConnections h cs (deleteImplied vt connections))"

text \<open>
  Modelled from the spec: \<^verbatim>\<open>addChild\<close> and \<^verbatim>\<open>addParent\<close> are not among the sources. A
  child has at most one parent per host: the edge replaces the edge from the child's
  former parent on the parent's host, if any. \<^verbatim>\<open>this.addParent(node)\<close> is
  \<^verbatim>\<open>node.addChild(this)\<close>.
\<close>

definition addChild :: "nat \<Rightarrow> nat \<Rightarrow> heap \<Rightarrow> heap" where
  "addChild this node h =
     (let ph = host (cells h this);
          h1 = (case map_of (hostToParent (cells h node)) ph of
                  None \<Rightarrow> h
                | Some old \<Rightarrow> modify old (\<lambda>n. n\<lparr>children := removeAll node (children n)\<rparr>) h);
          h2 = modify node (\<lambda>n. n\<lparr>hostToParent := AList.update ph this (hostToParent n)\<rparr>) h1
      in modify this (\<lambda>n. n\<lparr>children := children n @ [node]\<rparr>) h2)"

definition addParent :: "nat \<Rightarrow> nat \<Rightarrow> heap \<Rightarrow> heap" where
  "addParent this node h = addChild node this h"

text \<open>The body of \<^verbatim>\<open>for (var key in connections)\<close>, lines 206 to 218.\<close>

definition keepStep :: "nat \<Rightarrow> heap \<Rightarrow> nat \<Rightarrow> error + heap" where
  "keepStep currNode h node =
     (case map_of (hostToParent (cells h currNode)) (host (cells h node)) of
        None \<Rightarrow> Inr (addParent currNode node h)
      | Some currParentOnHost \<Rightarrow>
          (case (getTime h node, getTime h currParentOnHost) of
             (Some t, Some tp) \<Rightarrow> if t > tp then Inr (addParent currNode node h) else Inr h
           | _ \<Rightarrow> Inl TypeError))"

text \<open>The body of \<^verbatim>\<open>while (currNode != tail)\<close>, lines 144 to 221, but for the last line.\<close>

definition processNode ::
  "builder \<Rightarrow> string \<Rightarrow> (string \<times> int) list \<Rightarrow> nat \<Rightarrow> error + builder \<times> (string \<times> int) list" where
  "processNode b h clk currNode =
     (case getFirstLogEvent (hp b) currNode of
        None \<Rightarrow> Inl TypeError
      | Some ev \<Rightarrow>
          (let currVT = vectorTimestamp ev;
               clk0 = AList.update h (ownTime currVT) clk
           in case forEach (candidateStep b ev) (clk0, []) (forIn fst (clock currVT)) of
                Inl e \<Rightarrow> Inl e
              | Inr (clk1, candidates) \<Rightarrow>
                  (case gatherConnections (hp b) candidates [] of
                     Inl e \<Rightarrow> Inl e
                   | Inr connections \<Rightarrow>
                       (case pruneConnections (hp b) candidates connections of
                          Inl e \<Rightarrow> Inl e
                        | Inr direct \<Rightarrow>
                            (case forEach (keepStep currNode) (hp b) (map snd direct) of
                               Inl e \<Rightarrow> Inl e
                             | Inr h' \<Rightarrow> Inr (b\<lparr>hp := h'\<rparr>, clk1))))))"

text \<open>
  The loop \<^verbatim>\<open>while (currNode != tail)\<close>. A reference is \<open>None\<close> when it is \<^verbatim>\<open>null\<close> or
  \<^verbatim>\<open>undefined\<close>, which \<^verbatim>\<open>!=\<close> does not tell apart. A chain that never reaches the tail
  makes the loop run forever: the result is then \<open>None\<close>.
\<close>

partial_function (option) walkChain ::
  "string \<Rightarrow> nat option \<Rightarrow> builder \<Rightarrow> (string \<times> int) list \<Rightarrow> nat option \<Rightarrow> (error + builder) option" where
  "walkChain h tail b clk currNode =
     (if currNode = tail then Some (Inr b)
      else case currNode of
             None \<Rightarrow> Some (Inl TypeError)
           | Some c \<Rightarrow>
               (case processNode b h clk c of
                  Inl e \<Rightarrow> Some (Inl e)
                | Inr (b', clk') \<Rightarrow> walkChain h tail b' clk' (next (cells (hp b') c))))"

definition initParentChild_host :: "builder \<Rightarrow> string \<Rightarrow> (error + builder) option" where
  "initParentChild_host b h =
     (case map_of (hostToHead (mg b)) h of
        None \<Rightarrow> Some (Inl TypeError)
      | Some head \<Rightarrow> walkChain h (map_of (hostToTail (mg b)) h) b [] (next (cells (hp b) head)))"

fun forEachHost ::
  "(builder \<Rightarrow> string \<Rightarrow> (error + builder) option) \<Rightarrow> builder \<Rightarrow> string list \<Rightarrow> (error + builder) option" where
  "forEachHost f b [] = Some (Inr b)"
| "forEachHost f b (h # hs) =
     (case f b h of
        None \<Rightarrow> None
      | Some (Inl e) \<Rightarrow> Some (Inl e)
      | Some (Inr b') \<Rightarrow> forEachHost f b' hs)"

definition initParentChild :: "builder \<Rightarrow> (error + builder) option" where
  "initParentChild b = forEachHost initParentChild_host b (forIn id (hostSet b))"

subsection \<open>The constructor\<close>

text \<open>
  Lines 37 to 39: \<^verbatim>\<open>initHosts(); initPrevNext(); initParentChild();\<close>. The constructor
  calls nothing else; \<open>h\<close> is the heap it runs in. The result is \<open>None\<close> when the
  constructor does not return.

  For an event whose host names a member of \<^verbatim>\<open>Object.prototype\<close>, the test
  \<^verbatim>\<open>hostSet[host] == undefined\<close> of line 53 is false although the host was never added,
  and \<^verbatim>\<open>hostToNodes[host].push(node)\<close> reads \<^verbatim>\<open>push\<close> of that member, which is
  \<^verbatim>\<open>undefined\<close>: \<^verbatim>\<open>initHosts\<close> raises a \<open>TypeError\<close> at the first such event. The
  definition \<open>initHosts\<close> above is the loop on the other hosts.
\<close>

definition ModelGraph :: "heap \<Rightarrow> LogEvent list \<Rightarrow> (error + builder) option" where
  "ModelGraph h evs =
     (if list_ex (\<lambda>ev. inherited (getHost ev)) evs then Some (Inl TypeError)
      else case initPrevNext (initHosts (new_builder h) evs) of
             Inl e \<Rightarrow> Some (Inl e)
           | Inr b \<Rightarrow> initParentChild b)"

subsection \<open>clone\<close>

text \<open>
  \<^verbatim>\<open>ModelGraph.prototype.clone\<close>, lines 334 to 387. \<^verbatim>\<open>getHosts\<close>, \<^verbatim>\<open>getAllNodes\<close>,
  \<^verbatim>\<open>getId\<close>, \<^verbatim>\<open>getLogEvents\<close> and \<^verbatim>\<open>getChildren\<close> are not among the sources: the
  identifier of a node is its address, the other four read \<open>hosts\<close>, \<open>nodes\<close>,
  \<open>logEvents\<close> and \<open>children\<close>. The fields \<^verbatim>\<open>visualNode\<close>, \<^verbatim>\<open>shouldObserve\<close>,
  \<^verbatim>\<open>nodeType\<close> and the set \<^verbatim>\<open>nodesToObserve\<close> serve the display and are left out.
\<close>

text \<open>The body of the first loop, lines 341 to 353.\<close>

definition cloneNode ::
  "heap \<times> graph \<times> (nat \<times> nat) list \<Rightarrow> nat \<Rightarrow> heap \<times> graph \<times> (nat \<times> nat) list" where
  "cloneNode s node =
     (let (h, newGraph, oldToNewNode) = s;
          old = cells h node;
          (newNode, h') = alloc ((new_ModelNode (logEvents old))
              \<lparr>host := host old, isHeadInner := isHeadInner old, isTailInner := isTailInner old\<rparr>) h
      in (h', newGraph\<lparr>nodes := nodes newGraph @ [newNode]\<rparr>,
          AList.update node newNode oldToNewNode))"

text \<open>
  Lines 356 to 364, for one of the two dictionaries. A node that is not in
  \<^verbatim>\<open>oldToNewNode\<close> would be stored as \<^verbatim>\<open>undefined\<close>, which reads as a missing entry.
\<close>

definition cloneRefs ::
  "(nat \<times> nat) list \<Rightarrow> (string \<times> nat) list \<Rightarrow> (string \<times> nat) list \<Rightarrow> (string \<times> nat) list" where
  "cloneRefs oldToNewNode new_refs refs =
     foldl (\<lambda>d (h, node). case map_of oldToNewNode node of
                               None \<Rightarrow> d
                             | Some newNode \<Rightarrow> AList.update h newNode d) new_refs refs"

text \<open>The body of the loop over the children, lines 380 and 381.\<close>

definition cloneChild :: "(nat \<times> nat) list \<Rightarrow> nat \<Rightarrow> heap \<Rightarrow> nat \<Rightarrow> error + heap" where
  "cloneChild oldToNewNode newNode h child =
     (case map_of oldToNewNode child of
        None \<Rightarrow> Inl TypeError
      | Some newChild \<Rightarrow> Inr (addChild newNode newChild h))"

text \<open>The body of the last loop, lines 367 to 382.\<close>

definition cloneEdges :: "(nat \<times> nat) list \<Rightarrow> heap \<Rightarrow> nat \<Rightarrow> error + heap" where
  "cloneEdges oldToNewNode h node =
     (case map_of oldToNewNode node of
        None \<Rightarrow>
          if prev (cells h node) = None \<and> next (cells h node) = None \<and> children (cells h node) = []
          then Inr h else Inl TypeError
      | Some newNode \<Rightarrow>
          (let h1 = (case prev (cells h node) of
                       None \<Rightarrow> h
                     | Some p \<Rightarrow> modify newNode (\<lambda>n. n\<lparr>prev := map_of oldToNewNode p\<rparr>) h);
               h2 = (case next (cells h1 node) of
                       None \<Rightarrow> h1
                     | Some p \<Rightarrow> modify newNode (\<lambda>n. n\<lparr>next := map_of oldToNewNode p\<rparr>) h1)
           in forEach (cloneChild oldToNewNode newNode) h2 (children (cells h2 node))))"

definition clone :: "heap \<Rightarrow> graph \<Rightarrow> (error + heap \<times> graph) option" where
  "clone h this =
     (case ModelGraph h [] of
        None \<Rightarrow> None
      | Some (Inl e) \<Rightarrow> Some (Inl e)
      | Some (Inr b) \<Rightarrow>
          (let allNodes = nodes this;
               (h1, newGraph, oldToNewNode) =
                 foldl cloneNode (hp b, (mg b)\<lparr>hosts := hosts this\<rparr>, []) allNodes;
               newGraph' = newGraph
                 \<lparr>hostToHead := cloneRefs oldToNewNode (hostToHead newGraph) (hostToHead this),
                  hostToTail := cloneRefs oldToNewNode (hostToTail newGraph) (hostToTail this)\<rparr>
           in case forEach (cloneEdges oldToNewNode) h1 allNodes of
                Inl e \<Rightarrow> Some (Inl e)
              | Inr h2 \<Rightarrow> Some (Inr (h2, newGraph'))))"

section \<open>The log parser\<close>

text \<open>
  \<^verbatim>\<open>NamedRegExp\<close> is not among the sources, and matching is the work of the
  JavaScript engine: a regular expression is given by what it answers. \<open>getNames\<close> are
  its named groups, \<open>execAll s\<close> the matches that the successive calls \<^verbatim>\<open>exec(s)\<close>
  return before \<^verbatim>\<open>null\<close>, \<open>splitBy s\<close> the array \<^verbatim>\<open>s.split(regexp.no)\<close>. A match has
  its \<^verbatim>\<open>index\<close> and its named captures; \<^verbatim>\<open>match[name]\<close> is \<^verbatim>\<open>undefined\<close> for a group
  that took no part in the match.
\<close>

record regmatch =
  index :: nat
  groups :: "(string \<times> jsval) list"

definition capture :: "regmatch \<Rightarrow> string \<Rightarrow> jsval" where
  "capture m name = (case map_of (groups m) name of None \<Rightarrow> Undefined | Some v \<Rightarrow> v)"

record NamedRegExp =
  getNames :: "string list"
  isZap :: bool
  execAll :: "string \<Rightarrow> regmatch list"
  splitBy :: "string \<Rightarrow> string list"

text \<open>A value used as a property key: \<^verbatim>\<open>obj[undefined]\<close> is \<^verbatim>\<open>obj["undefined"]\<close>.\<close>

definition toKey :: "jsval \<Rightarrow> string" where
  "toKey v = (case v of Undefined \<Rightarrow> ''undefined'' | Str s \<Rightarrow> s)"

text \<open>
  \<^verbatim>\<open>String.prototype.trim\<close>, on strings of 8-bit characters: tab, line feed, vertical
  tab, form feed, carriage return, space and no-break space are white space.
\<close>

definition isWhiteSpace :: "char \<Rightarrow> bool" where
  "isWhiteSpace c = (c \<in> set [CHR 0x09, CHR 0x0A, CHR 0x0B, CHR 0x0C, CHR 0x0D, CHR 0x20, CHR 0xA0])"

definition trim :: "string \<Rightarrow> string" where
  "trim s = rev (dropWhile isWhiteSpace (rev (dropWhile isWhiteSpace s)))"

text \<open>
  The environment of the parser: \<^verbatim>\<open>JSON.parse\<close> on a clock string (\<open>None\<close> when it
  throws), and \<^verbatim>\<open>parseZapLogs\<close> (lines 220 to 273), the structured format, which no
  property below is about.
\<close>

record env =
  jsonParse :: "string \<Rightarrow> json option"
  parseZapLogs :: "string \<Rightarrow> error + LogEvent list"

text \<open>
  Modelled from the spec: the \<^verbatim>\<open>VectorTimestamp\<close> constructor is not among the sources.
  It fails if the owner host has no entry, or if any entry is non-positive.
\<close>

definition new_VectorTimestamp :: "json \<Rightarrow> string \<Rightarrow> VectorTimestamp option" where
  "new_VectorTimestamp c h =
     (case c of
        JOther \<Rightarrow> None
      | JObject entries \<Rightarrow>
          (case map_of entries h of
             None \<Rightarrow> None
           | Some t \<Rightarrow>
               if list_ex (\<lambda>(k, v). v < 1) entries then None
               else Some \<lparr>clock = entries, ownHost = h, ownTime = t\<rparr>))"

definition parseJsonTimestamp :: "json \<Rightarrow> string \<Rightarrow> error + VectorTimestamp" where
  "parseJsonTimestamp c hostString =
     (case new_VectorTimestamp c hostString of
        None \<Rightarrow> Inl (TimestampContentError c)
      | Some ret \<Rightarrow> Inr ret)"

text \<open>\<^verbatim>\<open>clockString.replace(/\\\"/g, "\"")\<close>: every backslash followed by a quote becomes a quote.\<close>

fun unescapeQuotes :: "string \<Rightarrow> string" where
  "unescapeQuotes (a # b # s) =
     (if a = CHR 0x5C \<and> b = CHR 0x22 then CHR 0x22 # unescapeQuotes s
      else a # unescapeQuotes (b # s))"
| "unescapeQuotes s = s"

text \<open>
  \<^verbatim>\<open>parseStringTimestamp(clockString, hostString, line)\<close>, lines 171 to 201. The message
  of the exception names \<^verbatim>\<open>line + 1\<close>. An \<^verbatim>\<open>undefined\<close> clock makes both attempts throw
  (\<^verbatim>\<open>JSON.parse(undefined)\<close>, then \<^verbatim>\<open>undefined.replace\<close>).
\<close>

definition parseStringTimestamp :: "env \<Rightarrow> jsval \<Rightarrow> string \<Rightarrow> nat \<Rightarrow> error + VectorTimestamp" where
  "parseStringTimestamp en clockString hostString line =
     (case clockString of
        Undefined \<Rightarrow> Inl (TimestampFormatError (line + 1) None False)
      | Str s \<Rightarrow>
          (case jsonParse en s of
             Some c \<Rightarrow> parseJsonTimestamp c hostString
           | None \<Rightarrow>
               (let s' = unescapeQuotes s
                in case jsonParse en s' of
                     Some c \<Rightarrow> parseJsonTimestamp c hostString
                   | None \<Rightarrow>
                       (let isUserFriendly = (s' \<noteq> [])
                        in Inl (TimestampFormatError (line + 1)
                                 (if isUserFriendly then Some s' else None) isUserFriendly)))))"

text \<open>Lines 148 and 149: the number of the line the match starts on.\<close>

definition lineOf :: "string \<Rightarrow> nat \<Rightarrow> nat" where
  "lineOf rawString i = length (filter (\<lambda>c. c = CHR 0x0A) (take i rawString)) + 1"

text \<open>Lines 155 to 161: the field map of a match.\<close>

definition matchFields :: "string list \<Rightarrow> regmatch \<Rightarrow> (string \<times> jsval) list" where
  "matchFields names m =
     foldl (\<lambda>fs name. if name = ''clock'' \<or> name = ''event'' then fs
                       else AList.update name (capture m name) fs) [] names"

text \<open>The body of \<^verbatim>\<open>while (match = regexp.exec(rawString))\<close>, lines 148 to 165.\<close>

definition parseMatch :: "env \<Rightarrow> NamedRegExp \<Rightarrow> string \<Rightarrow> regmatch \<Rightarrow> error + LogEvent" where
  "parseMatch en regexp rawString m =
     (let ln = lineOf rawString (index m);
          clockString = capture m ''clock'';
          hostString = capture m ''host'';
          event = capture m ''event'';
          fs = matchFields (getNames regexp) m
      in case parseStringTimestamp en clockString (toKey hostString) ln of
           Inl e \<Rightarrow> Inl e
         | Inr timestamp \<Rightarrow>
             Inr \<lparr>text = event, vectorTimestamp = timestamp, lineNumber = ln, efields = fs\<rparr>)"

fun parseMatches :: "env \<Rightarrow> NamedRegExp \<Rightarrow> string \<Rightarrow> regmatch list \<Rightarrow> error + LogEvent list" where
  "parseMatches en regexp rawString [] = Inr []"
| "parseMatches en regexp rawString (m # ms) =
     (case parseMatch en regexp rawString m of
        Inl e \<Rightarrow> Inl e
      | Inr ev \<Rightarrow>
          (case parseMatches en regexp rawString ms of
             Inl e \<Rightarrow> Inl e
           | Inr evs \<Rightarrow> Inr (ev # evs)))"

text \<open>The object \<^verbatim>\<open>new ExecutionParser(rawString, label, regexp)\<close> leaves behind.\<close>

record ExecutionParser =
  ep_rawString :: string
  ep_label :: jsval
  ep_timestamps :: "VectorTimestamp list"
  ep_logEvents :: "LogEvent list"

definition ExecutionParser :: "env \<Rightarrow> string \<Rightarrow> jsval \<Rightarrow> NamedRegExp \<Rightarrow> error + ExecutionParser" where
  "ExecutionParser en rawString label regexp =
     (case (if isZap regexp then parseZapLogs en rawString
            else parseMatches en regexp rawString (execAll regexp rawString)) of
        Inl e \<Rightarrow> Inl e
      | Inr evs \<Rightarrow>
          if evs = [] then Inl (NoEventsParsedError label)
          else Inr \<lparr>ep_rawString = rawString, ep_label = label,
                    ep_timestamps = map vectorTimestamp evs, ep_logEvents = evs\<rparr>)"

text \<open>
  \<^verbatim>\<open>LogParser\<close>: \<open>labels\<close> in the order met, \<open>executions\<close> by label. A read
  \<^verbatim>\<open>currLabels[i]\<close> past the end of the array gives \<^verbatim>\<open>undefined\<close>.
\<close>

record LogParser =
  labels :: "jsval list"
  executions :: "(string \<times> ExecutionParser) list"

definition labelAt :: "jsval list \<Rightarrow> nat \<Rightarrow> jsval" where
  "labelAt currLabels i = (if i < length currLabels then currLabels ! i else Undefined)"

text \<open>
  The loop of lines 68 to 77, on the chunks from index \<open>i\<close> on. The test
  \<^verbatim>\<open>this.executions[currlabel]\<close> holds for a label that has an execution, and for a
  label that names a member of \<^verbatim>\<open>Object.prototype\<close>.
\<close>

fun splitLoop ::
  "env \<Rightarrow> NamedRegExp \<Rightarrow> jsval list \<Rightarrow> nat \<Rightarrow> string list \<Rightarrow> LogParser \<Rightarrow> error + LogParser" where
  "splitLoop en regexp currLabels i [] lp = Inr lp"
| "splitLoop en regexp currLabels i (chunk # rest) lp =
     (if trim chunk \<noteq> [] then
        (let currlabel = labelAt currLabels i
         in if map_of (executions lp) (toKey currlabel) \<noteq> None \<or> inherited (toKey currlabel)
            then Inl (DuplicateExecutionLabelError currlabel)
            else (case ExecutionParser en chunk currlabel regexp of
                    Inl e \<Rightarrow> Inl e
                  | Inr ep \<Rightarrow>
                      splitLoop en regexp currLabels (Suc i) rest
                        (lp\<lparr>executions := AList.update (toKey currlabel) ep (executions lp),
                            labels := labels lp @ [currlabel]\<rparr>)))
      else splitLoop en regexp currLabels (Suc i) rest lp)"

text \<open>Lines 59 to 66.\<close>

definition delimiterLabels :: "NamedRegExp \<Rightarrow> string \<Rightarrow> jsval list" where
  "delimiterLabels delimiter rawString =
     Str [] # (if ''trace'' \<in> set (getNames delimiter)
               then map (\<lambda>m. capture m ''trace'') (execAll delimiter rawString)
               else [])"

definition LogParser :: "env \<Rightarrow> string \<Rightarrow> NamedRegExp option \<Rightarrow> NamedRegExp \<Rightarrow> error + LogParser" where
  "LogParser en rawString delimiter regexp =
     (let raw = trim rawString;
          names = getNames regexp
      in if \<not> isZap regexp \<and>
            (''clock'' \<notin> set names \<or> ''host'' \<notin> set names \<or> ''event'' \<notin> set names)
         then Inl MissingCaptureGroupsError
         else (case delimiter of
                 Some d \<Rightarrow>
                   splitLoop en regexp (delimiterLabels d raw) 0 (splitBy d raw)
                     \<lparr>labels = [], executions = []\<rparr>
               | None \<Rightarrow>
                   (case ExecutionParser en raw (Str []) regexp of
                      Inl e \<Rightarrow> Inl e
                    | Inr ep \<Rightarrow> Inr \<lparr>labels = [Str []], executions = [([], ep)]\<rparr>)))"

section \<open>Double arithmetic\<close>

text \<open>The number of binary digits.\<close>

lemma bitlen_0: "bitlen 0 = 0"
  by (simp add: bitlen.simps)

lemma bitlen_pos: "0 < n \<Longrightarrow> bitlen n = Suc (bitlen (n div 2))"
  by (subst bitlen.simps) simp

lemma bitlen_upper: "n < 2 ^ bitlen n"
proof (induction n rule: bitlen.induct)
  case (1 n)
  show ?case
  proof (cases "n = 0")
    case True
    then show ?thesis by (simp add: bitlen_0)
  next
    case False
    with 1 have "n div 2 < 2 ^ bitlen (n div 2)" by simp
    then have "n < 2 * 2 ^ bitlen (n div 2)" by linarith
    with False show ?thesis by (simp add: bitlen_pos)
  qed
qed

lemma bitlen_lower: "0 < n \<Longrightarrow> 2 ^ (bitlen n - 1) \<le> n"
proof (induction n rule: bitlen.induct)
  case (1 n)
  show ?case
  proof (cases "n div 2 = 0")
    case True
    with "1.prems" have "bitlen n = 1" by (simp add: bitlen_pos bitlen_0)
    with "1.prems" show ?thesis by simp
  next
    case False
    with 1 have ih: "2 ^ (bitlen (n div 2) - 1) \<le> n div 2" by simp
    from False have "0 < bitlen (n div 2)" by (simp add: bitlen_pos)
    then have "(2::nat) ^ (bitlen n - 1) = 2 * 2 ^ (bitlen (n div 2) - 1)"
      using "1.prems" by (cases "bitlen (n div 2)") (simp_all add: bitlen_pos)
    with ih show ?thesis by linarith
  qed
qed

lemma bitlen_le: "n < 2 ^ k \<Longrightarrow> bitlen n \<le> k"
proof (cases "n = 0")
  case True
  then show ?thesis by (simp add: bitlen_0)
next
  case False
  assume "n < 2 ^ k"
  with bitlen_lower [of n] False have "(2::nat) ^ (bitlen n - 1) < 2 ^ k"
    by (elim le_less_trans [rotated]) simp
  then have "bitlen n - 1 < k" by (simp only: power_strict_increasing_iff [of 2] one_less_numeral_iff semiring_norm)
  then show ?thesis by simp
qed

lemma bitlen_gt: "2 ^ k \<le> n \<Longrightarrow> k < bitlen n"
proof -
  assume "2 ^ k \<le> n"
  with bitlen_upper [of n] have "(2::nat) ^ k < 2 ^ bitlen n"
    by (rule le_less_trans [rotated])
  then show ?thesis by (simp only: power_strict_increasing_iff [of 2] one_less_numeral_iff semiring_norm)
qed

lemma bitlen_mono: "a \<le> b \<Longrightarrow> bitlen a \<le> bitlen b"
proof -
  assume "a \<le> b"
  with bitlen_upper [of b] have "a < 2 ^ bitlen b" by simp
  then show ?thesis by (rule bitlen_le)
qed

lemma bitlen_eq: "2 ^ k \<le> n \<Longrightarrow> n < 2 ^ Suc k \<Longrightarrow> bitlen n = Suc k"
  using bitlen_gt [of k n] bitlen_le [of n "Suc k"] by simp

text \<open>The two neighbours of a number among the multiples of its unit.\<close>

lemma nearest_nat_cases:
  "nearest_nat m = (m div 2 ^ (bitlen m - 53)) * 2 ^ (bitlen m - 53) \<or>
   nearest_nat m = (m div 2 ^ (bitlen m - 53)) * 2 ^ (bitlen m - 53) + 2 ^ (bitlen m - 53)"
  by (simp add: nearest_nat_def Let_def)

lemma nearest_nat_dvd: "2 ^ (bitlen m - 53) dvd nearest_nat m"
  by (simp add: nearest_nat_def Let_def)

lemma nearest_nat_exact: "2 ^ (bitlen m - 53) dvd m \<Longrightarrow> nearest_nat m = m"
  by (simp add: nearest_nat_def Let_def mod_eq_0_iff_dvd)

lemma nearest_nat_small: "m < 2 ^ 53 \<Longrightarrow> nearest_nat m = m"
  using bitlen_le [of m 53] by (simp add: nearest_nat_exact)

lemma nearest_nat_lower: "(m div 2 ^ (bitlen m - 53)) * 2 ^ (bitlen m - 53) \<le> nearest_nat m"
  using nearest_nat_cases [of m] by auto

lemma nearest_nat_upper:
  "nearest_nat m \<le> (m div 2 ^ (bitlen m - 53)) * 2 ^ (bitlen m - 53) + 2 ^ (bitlen m - 53)"
  using nearest_nat_cases [of m] by auto

lemma unit_le: "0 < m \<Longrightarrow> 2 ^ (bitlen m - 53) \<le> m"
proof -
  assume "0 < m"
  have "(2::nat) ^ (bitlen m - 53) \<le> 2 ^ (bitlen m - 1)" by (rule power_increasing) simp_all
  from this bitlen_lower [OF \<open>0 < m\<close>] show ?thesis by (rule order_trans)
qed

lemma nearest_nat_pos: "0 < m \<Longrightarrow> 0 < nearest_nat m"
proof -
  assume m: "0 < m"
  from unit_le [OF m] have "1 \<le> m div 2 ^ (bitlen m - 53)"
    by (simp add: Suc_le_eq div_greater_zero_iff)
  then have "0 < (m div 2 ^ (bitlen m - 53)) * 2 ^ (bitlen m - 53)" by simp
  with nearest_nat_lower [of m] show ?thesis by linarith
qed

text \<open>No double lies strictly between the two neighbours.\<close>

lemma next_multiple:
  fixes d q u :: nat
  assumes "u dvd d" and "q * u < d"
  shows "q * u + u \<le> d"
proof -
  from assms(1) obtain k where k: "d = u * k" by (auto simp: dvd_def)
  with assms(2) have "q * u < k * u" by (simp add: mult.commute)
  then have "q < k" by simp
  then have "Suc q \<le> k" by simp
  then have "Suc q * u \<le> k * u" by (rule mult_le_mono1)
  with k show ?thesis by (simp add: mult.commute)
qed

lemma double_unit:
  assumes d: "nearest_nat d = d" and le: "bitlen m \<le> bitlen d"
  shows "2 ^ (bitlen m - 53) dvd d"
proof -
  from nearest_nat_dvd [of d] d have "2 ^ (bitlen d - 53) dvd d" by simp
  moreover from le have "(2::nat) ^ (bitlen m - 53) dvd 2 ^ (bitlen d - 53)"
    by (intro le_imp_power_dvd) simp
  ultimately show ?thesis by (rule dvd_trans [rotated])
qed

lemma nearest_nat_above:
  assumes d: "nearest_nat d = d" and le: "m \<le> d"
  shows "nearest_nat m \<le> d"
proof (cases "2 ^ (bitlen m - 53) dvd m")
  case True
  with le show ?thesis by (simp add: nearest_nat_exact)
next
  case False
  let ?u = "2 ^ (bitlen m - 53) :: nat"
  from False have "m mod ?u \<noteq> 0" by (simp add: mod_eq_0_iff_dvd)
  then have "(m div ?u) * ?u < m"
    using div_mult_mod_eq [of m ?u] by linarith
  with le have lt: "(m div ?u) * ?u < d" by simp
  from double_unit [OF d bitlen_mono [OF le]] have "?u dvd d" .
  from next_multiple [OF this lt] nearest_nat_upper [of m] show ?thesis by linarith
qed

lemma nearest_nat_below:
  assumes d: "nearest_nat d = d" and le: "d \<le> m"
  shows "d \<le> nearest_nat m"
proof (rule ccontr)
  let ?u = "2 ^ (bitlen m - 53) :: nat"
  let ?lo = "(m div ?u) * ?u"
  assume "\<not> d \<le> nearest_nat m"
  with nearest_nat_lower [of m] have lt: "?lo < d" by linarith
  have "bitlen m \<le> bitlen d"
  proof (cases "bitlen m \<le> 53")
    case True
    then have "?lo = m" by simp
    with lt le show ?thesis by simp
  next
    case False
    then have pos: "0 < m" by (cases "m = 0") (simp_all add: bitlen_0)
    from False have e: "bitlen m - 1 = 52 + (bitlen m - 53)" by simp
    have p: "(2::nat) ^ (bitlen m - 1) = 2 ^ 52 * ?u" by (simp only: e power_add)
    from bitlen_lower [OF pos] have "2 ^ 52 * ?u \<le> m" by (simp only: p)
    then have "2 ^ 52 \<le> m div ?u" by (simp add: less_eq_div_iff_mult_less_eq)
    then have "2 ^ 52 * ?u \<le> ?lo" by (rule mult_le_mono1)
    with lt have "2 ^ 52 * ?u \<le> d" by linarith
    then have "2 ^ (bitlen m - 1) \<le> d" by (simp only: p)
    from bitlen_gt [OF this] show ?thesis by simp
  qed
  from double_unit [OF d this] have "?u dvd d" .
  from next_multiple [OF this lt] have "?lo + ?u \<le> d" .
  moreover have "m < ?lo + ?u"
  proof -
    have "m mod ?u < ?u" by simp
    with div_mult_mod_eq [of m ?u] show ?thesis by linarith
  qed
  ultimately show False using le by simp
qed

text \<open>On the integers.\<close>

lemma nearest_double_exact: "\<bar>x\<bar> \<le> 9007199254740992 \<Longrightarrow> nearest_double x = x"
proof -
  assume a: "\<bar>x\<bar> \<le> 9007199254740992"
  have "nearest_nat (nat \<bar>x\<bar>) = nat \<bar>x\<bar>"
  proof (cases "nat \<bar>x\<bar> < 2 ^ 53")
    case True
    then show ?thesis by (rule nearest_nat_small)
  next
    case False
    with a have eq: "nat \<bar>x\<bar> = 2 ^ 53" by simp
    have "bitlen (2 ^ 53) = Suc 53" by (rule bitlen_eq) simp_all
    then show ?thesis by (simp add: eq nearest_nat_exact)
  qed
  then show ?thesis by (simp add: nearest_double_def sgn_if)
qed

lemma nearest_double_sign:
  "x < 0 \<Longrightarrow> nearest_double x < 0" "0 \<le> x \<Longrightarrow> 0 \<le> nearest_double x"
  "x \<le> 0 \<Longrightarrow> nearest_double x \<le> 0"
  using nearest_nat_pos [of "nat \<bar>x\<bar>"]
  by (auto simp: nearest_double_def sgn_if)

lemma nearest_double_below:
  assumes d: "nearest_double d = d" and le: "d \<le> y"
  shows "d \<le> nearest_double y"
proof (cases "0 \<le> y")
  case y: True
  show ?thesis
  proof (cases "0 < d")
    case False
    with nearest_double_sign(2) [OF y] show ?thesis by simp
  next
    case True
    with d have "nearest_nat (nat d) = nat d" by (simp add: nearest_double_def sgn_if)
    from nearest_nat_below [OF this, of "nat y"] le True have "nat d \<le> nearest_nat (nat y)" by simp
    with True y le show ?thesis by (simp add: nearest_double_def sgn_if)
  qed
next
  case False
  with le have neg: "d < 0" "y < 0" by simp_all
  with d have "int (nearest_nat (nat (- d))) = - d" by (simp add: nearest_double_def sgn_if)
  then have "nearest_nat (nat (- d)) = nat (- d)" by simp
  from nearest_nat_above [OF this, of "nat (- y)"] le neg
  have "nearest_nat (nat (- y)) \<le> nat (- d)" by simp
  with neg show ?thesis by (simp add: nearest_double_def sgn_if)
qed

text \<open>The result is a double.\<close>

lemma nearest_nat_idem: "nearest_nat (nearest_nat m) = nearest_nat m"
proof (cases "bitlen m \<le> 53")
  case True
  have "m < 2 ^ bitlen m" by (rule bitlen_upper)
  also from True have "(2::nat) ^ bitlen m \<le> 2 ^ 53" by (intro power_increasing) simp_all
  finally have "m < 2 ^ 53" .
  then show ?thesis by (simp only: nearest_nat_small)
next
  case False
  let ?e = "bitlen m - 53"
  let ?u = "2 ^ ?e :: nat"
  let ?v = "nearest_nat m"
  from False have pos: "0 < m" by (cases "m = 0") (simp_all add: bitlen_0)
  from False have e1: "bitlen m - 1 = 52 + ?e" and e2: "bitlen m = 53 + ?e" by simp_all
  have p1: "(2::nat) ^ (bitlen m - 1) = 2 ^ 52 * ?u" by (simp only: e1 power_add)
  have p2: "(2::nat) ^ bitlen m = 2 ^ 53 * ?u" by (subst e2) (simp only: power_add)
  from bitlen_lower [OF pos] have "2 ^ 52 * ?u \<le> m" by (simp only: p1)
  then have "2 ^ 52 \<le> m div ?u" by (simp add: less_eq_div_iff_mult_less_eq)
  then have "2 ^ 52 * ?u \<le> (m div ?u) * ?u" by (rule mult_le_mono1)
  with nearest_nat_lower [of m] have lo: "2 ^ 52 * ?u \<le> ?v" by linarith
  from bitlen_upper [of m] have "m < 2 ^ 53 * ?u" by (simp only: p2)
  then have "m div ?u < 2 ^ 53" by (simp add: div_less_iff_less_mult)
  then have "Suc (m div ?u) \<le> 2 ^ 53" by simp
  then have "Suc (m div ?u) * ?u \<le> 2 ^ 53 * ?u" by (rule mult_le_mono1)
  moreover have "Suc (m div ?u) * ?u = (m div ?u) * ?u + ?u" by simp
  ultimately have "(m div ?u) * ?u + ?u \<le> 2 ^ 53 * ?u" by (simp only:)
  with nearest_nat_upper [of m] have hi: "?v \<le> 2 ^ 53 * ?u" by (rule order_trans)
  have dv: "?u dvd ?v" by (rule nearest_nat_dvd)
  have "2 ^ (bitlen ?v - 53) dvd ?v"
  proof (cases "?v = 2 ^ 53 * ?u")
    case True
    then have v: "?v = 2 ^ (53 + ?e)" by (simp only: power_add)
    have "bitlen (2 ^ (53 + ?e)) = Suc (53 + ?e)" by (rule bitlen_eq) simp_all
    then have "bitlen ?v - 53 = Suc ?e" by (simp only: v)
    moreover have "(2::nat) ^ Suc ?e dvd 2 ^ (53 + ?e)" by (intro le_imp_power_dvd) simp
    ultimately show ?thesis by (simp only: v)
  next
    case False
    with hi have "?v < 2 ^ 53 * ?u" by simp
    then have "?v < 2 ^ Suc (52 + ?e)" by (simp add: power_add)
    moreover from lo have "2 ^ (52 + ?e) \<le> ?v" by (simp only: power_add)
    ultimately have "bitlen ?v = Suc (52 + ?e)" by (intro bitlen_eq)
    then have "bitlen ?v - 53 = ?e" by simp
    with dv show ?thesis by simp
  qed
  then show ?thesis by (rule nearest_nat_exact)
qed

lemma is_double_nearest: "is_double (nearest_double x)"
proof -
  let ?n = "nearest_nat (nat \<bar>x\<bar>)"
  show ?thesis
  proof (cases "x = 0")
    case True
    then show ?thesis by (simp add: is_double_def nearest_double_def nearest_nat_small)
  next
    case False
    then have n: "0 < ?n" by (intro nearest_nat_pos) simp
    have "nat \<bar>sgn x * int ?n\<bar> = ?n" by (simp add: abs_mult False)
    moreover from n have "sgn (sgn x * int ?n) = sgn x" by (simp add: sgn_mult)
    ultimately have "nat \<bar>sgn x * int ?n\<bar> = ?n" "sgn (sgn x * int ?n) = sgn x"
      by simp_all
    then have "nearest_double (sgn x * int ?n) = sgn x * int ?n"
      by (simp only: nearest_double_def [of "sgn x * int ?n"] nearest_nat_idem)
    then show ?thesis by (simp only: is_double_def nearest_double_def [of x])
  qed
qed

lemma is_double_small: "\<bar>x\<bar> \<le> 9007199254740992 \<Longrightarrow> is_double x"
  by (simp add: is_double_def nearest_double_exact)

lemma double_add_exact: "\<bar>a + b\<bar> \<le> 9007199254740992 \<Longrightarrow> double_add a b = a + b"
  by (simp add: double_add_def nearest_double_exact)

lemma double_sub_exact: "\<bar>a - b\<bar> \<le> 9007199254740992 \<Longrightarrow> double_sub a b = a - b"
  by (simp add: double_sub_def nearest_double_exact)

lemma double_add_ge: "0 \<le> n \<Longrightarrow> a \<le> double_add a n"
  by (auto simp: double_add_def is_double_def intro: nearest_double_below)

lemma double_sub_neg: "a \<le> b \<Longrightarrow> double_sub (double_sub a b) 1 < 0"
proof -
  assume "a \<le> b"
  then have "double_sub a b \<le> 0"
    by (auto simp: double_sub_def intro: nearest_double_sign(3))
  then show ?thesis
    by (auto simp: double_sub_def [of "double_sub a b" 1] intro: nearest_double_sign(1))
qed

text \<open>Between \<open>2^53\<close> and \<open>2^54\<close> the doubles are the even integers.\<close>

lemma nearest_nat_even:
  assumes "2 ^ 53 \<le> m" and "m < 2 ^ Suc 53"
  shows "nearest_nat m = (if odd m then (if odd (m div 2) then m + 1 else m - 1) else m)"
proof -
  from bitlen_eq [OF assms] have e: "bitlen m - 53 = 1" by simp
  show ?thesis
  proof (cases "even m")
    case True
    then have "m mod 2 = 0" "m div 2 * 2 = m" by simp_all
    with True show ?thesis by (simp add: nearest_nat_def Let_def e)
  next
    case False
    then have r: "m mod 2 = 1" by (simp add: odd_iff_mod_2_eq_one)
    then have "(m div 2 + 1) * 2 = m + 1" "m div 2 * 2 = m - 1" by presburger+
    with False r show ?thesis by (simp add: nearest_nat_def Let_def e)
  qed
qed

lemma nearest_double_even:
  assumes "9007199254740992 \<le> x" and "x < 18014398509481984"
  shows "nearest_double x = (if odd x then (if odd (x div 2) then x + 1 else x - 1) else x)"
proof -
  let ?m = "nat x"
  from assms have m: "2 ^ 53 \<le> ?m" "?m < 2 ^ Suc 53" by simp_all
  from assms have x: "\<bar>x\<bar> = x" "sgn x = 1" "0 \<le> x" by simp_all
  have d: "?m div 2 = nat (x div 2)" using x(3) by (simp add: nat_div_distrib)
  have "0 \<le> x div 2" using x(3) by simp
  then have o: "odd ?m = odd x" "odd (?m div 2) = odd (x div 2)"
    using x(3) by (simp_all only: d even_nat_iff)
  have "int (nearest_nat ?m) = (if odd x then (if odd (x div 2) then x + 1 else x - 1) else x)"
    using assms by (simp add: nearest_nat_even [OF m] o)
  then show ?thesis by (simp add: nearest_double_def x)
qed

section \<open>Sample inputs\<close>

definition event_at :: "string \<Rightarrow> int \<Rightarrow> (string \<times> int) list \<Rightarrow> LogEvent" where
  "event_at h t c =
     \<lparr>text = Str ''e'', vectorTimestamp = \<lparr>clock = c, ownHost = h, ownTime = t\<rparr>,
      lineNumber = 1, efields = []\<rparr>"

text \<open>One host whose local times are 5, 6, 7, and one whose local times are 5, 7, 8.\<close>

definition window_567 :: "LogEvent list" where
  "window_567 = [event_at ''h1'' 5 [(''h1'', 5)], event_at ''h1'' 6 [(''h1'', 6)],
                 event_at ''h1'' 7 [(''h1'', 7)]]"

definition window_578 :: "LogEvent list" where
  "window_578 = [event_at ''h1'' 5 [(''h1'', 5)], event_at ''h1'' 7 [(''h1'', 7)],
                 event_at ''h1'' 8 [(''h1'', 8)]]"

lemmas initHosts_eval =
  initHosts_def initHosts_step_def add_node_def alloc_def new_builder_def empty_heap_def
  new_graph_def new_ModelNode_def getHost_def Let_def event_at_def

lemmas initPrevNext_eval =
  initPrevNext_def initPrevNext_host_def sortByLocalTime_def getTime_def getVT_def
  getFirstLogEvent_def timeOf_def insertNext_def modify_def getClockIncrementException_def
  double_add_exact double_sub_exact forIn_def isArrayIndex_def isDigit_def

section \<open>The increment check of initPrevNext\<close>

text \<open>The spec's words: consecutive local times increase by exactly 1.\<close>

fun increasesByOne :: "int list \<Rightarrow> bool" where
  "increasesByOne (x # y # zs) = (y = x + 1 \<and> increasesByOne (y # zs))"
| "increasesByOne [x] = True"
| "increasesByOne [] = True"

lemma increasesByOne_nth:
  "increasesByOne ts \<longleftrightarrow> (\<forall>i. Suc i < length ts \<longrightarrow> ts ! Suc i = ts ! i + 1)"
proof (induction ts rule: increasesByOne.induct)
  case (1 x y zs)
  show ?case
  proof
    assume a: "increasesByOne (x # y # zs)"
    with 1 have ih: "\<forall>i. Suc i < length (y # zs) \<longrightarrow> (y # zs) ! Suc i = (y # zs) ! i + 1" by simp
    show "\<forall>i. Suc i < length (x # y # zs) \<longrightarrow> (x # y # zs) ! Suc i = (x # y # zs) ! i + 1"
    proof (intro allI impI)
      fix i assume "Suc i < length (x # y # zs)"
      then show "(x # y # zs) ! Suc i = (x # y # zs) ! i + 1"
        using a ih by (cases i) auto
    qed
  next
    assume a: "\<forall>i. Suc i < length (x # y # zs) \<longrightarrow> (x # y # zs) ! Suc i = (x # y # zs) ! i + 1"
    from a [rule_format, of 0] have "y = x + 1" by simp
    moreover have "\<forall>i. Suc i < length (y # zs) \<longrightarrow> (y # zs) ! Suc i = (y # zs) ! i + 1"
    proof (intro allI impI)
      fix i assume "Suc i < length (y # zs)"
      with a [rule_format, of "Suc i"] show "(y # zs) ! Suc i = (y # zs) ! i + 1" by simp
    qed
    ultimately show "increasesByOne (x # y # zs)" using 1 by simp
  qed
qed simp_all

lemma increasesByOne_map_nth:
  "increasesByOne (map f xs) \<longleftrightarrow> (\<forall>i. Suc i < length xs \<longrightarrow> f (xs ! Suc i) = f (xs ! i) + 1)"
  by (simp add: increasesByOne_nth)

lemma getTime_timeOf:
  "getFirstLogEvent h a \<noteq> None \<Longrightarrow> getTime h a = Some (timeOf h a)"
  by (auto simp: getTime_def getVT_def timeOf_def)

text \<open>Below \<open>2^53\<close> in magnitude the sums of the loop are exact.\<close>

lemma checkIncrements_ok:
  "\<forall>a \<in> set (x # rest). getFirstLogEvent h a \<noteq> None \<Longrightarrow>
   \<forall>a \<in> set (x # rest). \<bar>timeOf h a\<bar> < 9007199254740992 \<Longrightarrow>
   timeOf h x = double_add c 1 \<Longrightarrow>
   increasesByOne (map (timeOf h) (x # rest)) \<Longrightarrow> checkIncrements h l c (x # rest) = Inr ()"
proof (induction rest arbitrary: x c l)
  case Nil
  then show ?case by (simp add: getTime_timeOf)
next
  case (Cons y rest)
  from Cons.prems(2) have "\<bar>timeOf h x + 1\<bar> \<le> 9007199254740992"
    by (simp add: abs_le_iff abs_less_iff)
  then have "double_add (timeOf h x) 1 = timeOf h x + 1" by (rule double_add_exact)
  with Cons.prems have "checkIncrements h (Some x) (timeOf h x) (y # rest) = Inr ()"
    by (intro Cons.IH) auto
  with Cons.prems(1,3) show ?case by (simp add: getTime_timeOf)
qed

lemma checkIncrements_gap:
  "\<forall>a \<in> set (x # rest). getFirstLogEvent h a \<noteq> None \<Longrightarrow>
   \<forall>a \<in> set (x # rest). \<bar>timeOf h a\<bar> < 9007199254740992 \<Longrightarrow>
   timeOf h x = double_add c 1 \<Longrightarrow>
   \<not> increasesByOne (map (timeOf h) (x # rest)) \<Longrightarrow>
   \<exists>i. Suc i < length (x # rest) \<and> timeOf h ((x # rest) ! Suc i) \<noteq> timeOf h ((x # rest) ! i) + 1 \<and>
       (\<forall>j < i. timeOf h ((x # rest) ! Suc j) = timeOf h ((x # rest) ! j) + 1) \<and>
       checkIncrements h l c (x # rest) =
         Inl (ClockIncrementError (the (getFirstLogEvent h ((x # rest) ! i)))
                                  (the (getFirstLogEvent h ((x # rest) ! Suc i))))"
proof (induction rest arbitrary: x c l)
  case Nil
  then show ?case by simp
next
  case (Cons y rest)
  from Cons.prems(2) have "\<bar>timeOf h x + 1\<bar> \<le> 9007199254740992"
    by (simp add: abs_le_iff abs_less_iff)
  then have next_time: "double_add (timeOf h x) 1 = timeOf h x + 1" by (rule double_add_exact)
  from Cons.prems(1,3) have step: "checkIncrements h l c (x # y # rest) =
      checkIncrements h (Some x) (timeOf h x) (y # rest)"
    by (simp add: getTime_timeOf)
  show ?case
  proof (cases "timeOf h y = timeOf h x + 1")
    case False
    with Cons.prems(1) next_time have "checkIncrements h (Some x) (timeOf h x) (y # rest) =
        Inl (ClockIncrementError (the (getFirstLogEvent h x)) (the (getFirstLogEvent h y)))"
      by (auto simp: getTime_timeOf getClockIncrementException_def)
    with False step show ?thesis by (intro exI [of _ 0]) simp
  next
    case True
    with Cons.prems have "\<not> increasesByOne (map (timeOf h) (y # rest))" by simp
    moreover from True next_time have "timeOf h y = double_add (timeOf h x) 1" by simp
    ultimately obtain i where i: "Suc i < length (y # rest)"
        "timeOf h ((y # rest) ! Suc i) \<noteq> timeOf h ((y # rest) ! i) + 1"
        "\<forall>j < i. timeOf h ((y # rest) ! Suc j) = timeOf h ((y # rest) ! j) + 1"
        "checkIncrements h (Some x) (timeOf h x) (y # rest) =
           Inl (ClockIncrementError (the (getFirstLogEvent h ((y # rest) ! i)))
                                    (the (getFirstLogEvent h ((y # rest) ! Suc i))))"
      using Cons.IH [of y "timeOf h x" "Some x"] Cons.prems(1,2) by auto
    have "\<forall>j < Suc i. timeOf h ((x # y # rest) ! Suc j) = timeOf h ((x # y # rest) ! j) + 1"
    proof (intro allI impI)
      fix j assume "j < Suc i"
      then show "timeOf h ((x # y # rest) ! Suc j) = timeOf h ((x # y # rest) ! j) + 1"
        using True i(3) by (cases j) auto
    qed
    with i step show ?thesis
      by (intro exI [of _ "Suc i"]) simp
  qed
qed

lemma insertNext_next:
  "insertNext this node h = Inr h' \<Longrightarrow> next (cells h' node) \<noteq> None"
  by (auto simp: insertNext_def modify_def split: option.splits)

lemma insertAll_ok:
  "next (cells h l) \<noteq> None \<Longrightarrow> \<exists>h'. insertAll l arr h = Inr h'"
proof (induction arr arbitrary: l h)
  case Nil
  then show ?case by simp
next
  case (Cons a arr)
  then obtain h1 where h1: "insertNext l a h = Inr h1"
    by (auto simp: insertNext_def)
  from insertNext_next [OF h1] Cons.IH [of h1 a] h1 show ?case by auto
qed

text \<open>
  C3, as the code has it. For a host \<open>h\<close> whose nodes all hold an event, whose local
  times are all below \<open>2^53\<close> in magnitude and whose head sentinel is in place, let
  \<open>array\<close> be the host's nodes sorted by local time. If every local time is its
  predecessor's plus 1, whatever the first one is, \<^verbatim>\<open>initPrevNext\<close> accepts the host,
  keeps the sorted array and records the first time minus 1 as the window start.
  Otherwise it raises \<open>ClockIncrementError\<close> naming the first two consecutive events
  whose times do not differ by exactly 1 (a gap or a repeat).
\<close>

theorem initPrevNext_host_increment:
  assumes nodes: "map_of (hostToNodes b) h = Some unsorted"
      and evs: "\<forall>a \<in> set unsorted. getFirstLogEvent (hp b) a \<noteq> None"
      and safe: "\<forall>a \<in> set unsorted. \<bar>timeOf (hp b) a\<bar> < 9007199254740992"
      and head: "map_of (hostToHead (mg b)) h = Some hd_node"
      and head_next: "next (cells (hp b) hd_node) \<noteq> None"
      and array: "array = sort_key (timeOf (hp b)) unsorted"
  shows "if \<forall>i. Suc i < length array \<longrightarrow> timeOf (hp b) (array ! Suc i) = timeOf (hp b) (array ! i) + 1
         then \<exists>b'. initPrevNext_host b h = Inr b' \<and> map_of (hostToNodes b') h = Some array \<and>
                (array \<noteq> [] \<longrightarrow> map_of (hostToStartTime b') h = Some (timeOf (hp b) (array ! 0) - 1))
         else \<exists>i. Suc i < length array \<and>
                timeOf (hp b) (array ! Suc i) \<noteq> timeOf (hp b) (array ! i) + 1 \<and>
                (\<forall>j < i. timeOf (hp b) (array ! Suc j) = timeOf (hp b) (array ! j) + 1) \<and>
                initPrevNext_host b h =
                  Inl (ClockIncrementError (the (getFirstLogEvent (hp b) (array ! i)))
                                           (the (getFirstLogEvent (hp b) (array ! Suc i))))"
proof -
  let ?T = "timeOf (hp b)"
  have sorted_eq: "sortByLocalTime (hp b) unsorted = Inr array"
    using evs array by (auto simp: sortByLocalTime_def getTime_timeOf)
  have evs': "\<forall>a \<in> set array. getFirstLogEvent (hp b) a \<noteq> None"
    using evs array by simp
  have safe': "\<forall>a \<in> set array. \<bar>?T a\<bar> < 9007199254740992"
    using safe array by simp
  have idx: "(\<forall>i. Suc i < length array \<longrightarrow> ?T (array ! Suc i) = ?T (array ! i) + 1)
      \<longleftrightarrow> increasesByOne (map ?T array)"
    by (simp add: increasesByOne_nth)
  show ?thesis
  proof (cases array)
    case Nil
    with sorted_eq nodes head show ?thesis
      by (simp add: initPrevNext_host_def update_conv')
  next
    case (Cons x rest)
    have first: "getTime (hp b) x = Some (?T x)"
      using evs' Cons by (simp add: getTime_timeOf)
    from safe' Cons have "\<bar>?T x - 1\<bar> \<le> 9007199254740992" "\<bar>(?T x - 1) + 1\<bar> \<le> 9007199254740992"
      by (simp_all add: abs_le_iff abs_less_iff)
    then have start: "double_sub (?T x) 1 = ?T x - 1" and first_sum: "double_add (?T x - 1) 1 = ?T x"
      by (simp_all add: double_sub_exact double_add_exact)
    show ?thesis
    proof (cases "increasesByOne (map ?T array)")
      case True
      have chk: "checkIncrements (hp b) None (?T x - 1) (x # rest) = Inr ()"
        using evs' safe' True Cons first_sum [symmetric] by (intro checkIncrements_ok) auto
      obtain h' where h': "insertAll hd_node (x # rest) (hp b) = Inr h'"
        using insertAll_ok [OF head_next] by blast
      show ?thesis
        using True idx sorted_eq nodes head first chk h' Cons start first_sum
        by (simp add: initPrevNext_host_def Let_def update_conv')
    next
      case False
      obtain i where i: "Suc i < length (x # rest)"
          "?T ((x # rest) ! Suc i) \<noteq> ?T ((x # rest) ! i) + 1"
          "\<forall>j < i. ?T ((x # rest) ! Suc j) = ?T ((x # rest) ! j) + 1"
          "checkIncrements (hp b) None (?T x - 1) (x # rest) =
             Inl (ClockIncrementError (the (getFirstLogEvent (hp b) ((x # rest) ! i)))
                                      (the (getFirstLogEvent (hp b) ((x # rest) ! Suc i))))"
        using checkIncrements_gap [of x rest "hp b" "?T x - 1" None] evs' safe' False Cons
          first_sum [symmetric]
        by auto
      have "initPrevNext_host b h =
          Inl (ClockIncrementError (the (getFirstLogEvent (hp b) ((x # rest) ! i)))
                                   (the (getFirstLogEvent (hp b) ((x # rest) ! Suc i))))"
        using sorted_eq nodes first i(4) Cons start first_sum
        by (simp add: initPrevNext_host_def Let_def)
      with i False idx Cons show ?thesis
        by (simp only: if_False) blast
    qed
  qed
qed

text \<open>
  The two hosts of the spec: the window 5, 6, 7 is accepted with window start 4; in
  the window 5, 7, 8 the events at 5 and at 7 are named.
\<close>

theorem initPrevNext_host_increment_witness:
  "(\<exists>b'. initPrevNext_host (initHosts (new_builder empty_heap) window_567) ''h1'' = Inr b' \<and>
         map_of (hostToNodes b') ''h1'' = Some [0, 3, 4] \<and>
         map_of (hostToStartTime b') ''h1'' = Some 4) \<and>
   initPrevNext_host (initHosts (new_builder empty_heap) window_578) ''h1'' =
     Inl (ClockIncrementError (event_at ''h1'' 5 [(''h1'', 5)]) (event_at ''h1'' 7 [(''h1'', 7)]))"
proof -
  let ?b = "initHosts (new_builder empty_heap) window_567"
  let ?c = "initHosts (new_builder empty_heap) window_578"
  have "increasesByOne (map (timeOf (hp ?b)) [0, 3, 4])"
    by (simp add: window_567_def initHosts_eval initPrevNext_eval)
  then have inc: "\<forall>i. Suc i < length [0, 3, 4 :: nat] \<longrightarrow>
      timeOf (hp ?b) ([0, 3, 4] ! Suc i) = timeOf (hp ?b) ([0, 3, 4] ! i) + 1"
    by (simp only: increasesByOne_map_nth)
  have ok: "\<exists>b'. initPrevNext_host ?b ''h1'' = Inr b' \<and> map_of (hostToNodes b') ''h1'' = Some [0, 3, 4] \<and>
         map_of (hostToStartTime b') ''h1'' = Some 4"
    using initPrevNext_host_increment [of ?b "''h1''" "[0, 3, 4]" 1 "[0, 3, 4]"] inc
    by (simp add: window_567_def initHosts_eval initPrevNext_eval)
  have bad: "initPrevNext_host ?c ''h1'' =
     Inl (ClockIncrementError (event_at ''h1'' 5 [(''h1'', 5)]) (event_at ''h1'' 7 [(''h1'', 7)]))"
    by (simp add: window_578_def initHosts_eval initPrevNext_eval)
  from ok bad show ?thesis by blast
qed

text \<open>
  The claim as stated fails where doubles stop counting by one. Two events of host \<open>a\<close>
  with the same local time \<open>2^53\<close>: the window start is \<open>2^53 - 1\<close>, the first sum is
  \<open>2^53\<close>, and the second sum \<open>2^53 + 1\<close> is rounded to \<open>2^53\<close> again, so the repeat is
  accepted.
\<close>

definition repeat_at_2_53 :: "LogEvent list" where
  "repeat_at_2_53 = [event_at ''a'' 9007199254740992 [(''a'', 9007199254740992)],
                     event_at ''a'' 9007199254740992 [(''a'', 9007199254740992)]]"

lemmas double_eval = double_add_def double_sub_def is_double_def nearest_double_even nearest_double_exact

theorem initPrevNext_host_repeat_accepted:
  "(case initPrevNext_host (initHosts (new_builder empty_heap) repeat_at_2_53) ''a'' of
      Inl e \<Rightarrow> None
    | Inr b' \<Rightarrow> Some (map_of (hostToNodes b') ''a'', map (timeOf (hp b')) [0, 3],
                      map_of (hostToStartTime b') ''a'')) =
   Some (Some [0, 3], [9007199254740992, 9007199254740992], Some 9007199254740991)"
  by (simp add: repeat_at_2_53_def initHosts_eval initPrevNext_eval double_eval)

text \<open>
  And a window cannot start anywhere: for a single event at \<open>2^53 + 2\<close> the window start
  \<open>2^53 + 1\<close> is rounded to \<open>2^53\<close>, the first sum is \<open>2^53\<close> again, and the exception is
  built from \<^verbatim>\<open>array[-1]\<close>, which is \<^verbatim>\<open>undefined\<close>.
\<close>

lemma initPrevNext_host_first_rejected:
  "initPrevNext_host (initHosts (new_builder empty_heap)
      [event_at ''a'' 9007199254740994 [(''a'', 9007199254740994)]]) ''a'' = Inl TypeError"
  by (simp add: initHosts_eval initPrevNext_eval double_eval)


section \<open>Cross-host edge inference: the entries of a clock\<close>

lemma forEach_append:
  "forEach f s (xs @ ys) = (case forEach f s xs of Inl e \<Rightarrow> Inl e | Inr s' \<Rightarrow> forEach f s' ys)"
  by (induction xs arbitrary: s) (auto split: sum.splits)

text \<open>The builder that \<^verbatim>\<open>initParentChild\<close> starts from, for a list of events.\<close>

definition afterPrevNext :: "LogEvent list \<Rightarrow> builder" where
  "afterPrevNext evs =
     (case initPrevNext (initHosts (new_builder empty_heap) evs) of
        Inl e \<Rightarrow> new_builder empty_heap
      | Inr b \<Rightarrow> b)"

text \<open>
  Scenario C of the spec, and a clock entry for a host \<open>h9\<close> with no event: \<open>h3\<close> has
  two events, and the only event of \<open>h1\<close> has the entry 5 for \<open>h3\<close>.
\<close>

definition scenario_C :: "LogEvent list" where
  "scenario_C = [event_at ''h3'' 1 [(''h3'', 1)], event_at ''h3'' 2 [(''h3'', 2)],
                 event_at ''h1'' 1 [(''h1'', 1), (''h9'', 4), (''h3'', 5)]]"

text \<open>
  A window: the events of \<open>h2\<close> start at local time 5, and the event of \<open>h1\<close> has the
  entry 3 for \<open>h2\<close>, a time before the window.
\<close>

definition before_window :: "LogEvent list" where
  "before_window = [event_at ''h2'' 5 [(''h2'', 5)], event_at ''h2'' 6 [(''h2'', 6)],
                    event_at ''h1'' 1 [(''h1'', 1), (''h2'', 3)]]"

lemmas initParentChild_eval =
  ModelGraph_def initParentChild_def initParentChild_host_def walkChain.simps processNode_def
  candidateStep_def deleteImplied_def addChild_def addParent_def keepStep_def
  double_add_exact double_sub_exact inherited_def

text \<open>
  C2, as the code has it. In the loop over the entries of a node's clock, let the
  entries \<open>before\<close> have been handled without error, leaving the running clock \<open>clk\<close>,
  and let the next entry \<open>(otherHost, time)\<close> have increased with respect to \<open>clk\<close>. If
  \<open>otherHost\<close> is not in the host set, the entry only updates the running clock: no
  candidate, no error. If it is in the host set and \<open>time\<close> is below 1 or above the sum
  of the host's window start and the number of its events, as line 171 computes it on
  doubles, the loop ends with \<open>OutOfBoundsTimeError\<close> carrying the node's event \<open>ev\<close>, the
  host and the time, whatever entries follow. That sum is the exact one whenever the
  exact one is at most \<open>2^53\<close> in magnitude.
\<close>

theorem candidateStep_absent_or_out_of_bounds:
  assumes before: "forEach (candidateStep b ev) s0 before = Inr (clk, candidates)"
      and increased: "case map_of clk otherHost of None \<Rightarrow> True | Some c \<Rightarrow> c < time"
  shows "(otherHost \<notin> set (hostSet b) \<longrightarrow>
            forEach (candidateStep b ev) s0 (before @ [(otherHost, time)]) =
              Inr (AList.update otherHost time clk, candidates)) \<and>
         (otherHost \<in> set (hostSet b) \<and>
            (time < 1 \<or>
             (\<exists>arr start. map_of (hostToNodes b) otherHost = Some arr \<and>
                 map_of (hostToStartTime b) otherHost = Some start \<and>
                 time > double_add start (int (length arr)))) \<longrightarrow>
            (\<forall>after. forEach (candidateStep b ev) s0 (before @ (otherHost, time) # after) =
               Inl (OutOfBoundsTimeError ev otherHost time))) \<and>
         (\<forall>start n. \<bar>start + int n\<bar> \<le> 9007199254740992 \<longrightarrow>
            double_add start (int n) = start + int n)"
proof (intro conjI impI allI)
  assume "otherHost \<notin> set (hostSet b)"
  with before increased
  show "forEach (candidateStep b ev) s0 (before @ [(otherHost, time)]) =
          Inr (AList.update otherHost time clk, candidates)"
    by (simp add: forEach_append candidateStep_def)
next
  fix after
  assume a: "otherHost \<in> set (hostSet b) \<and>
            (time < 1 \<or>
             (\<exists>arr start. map_of (hostToNodes b) otherHost = Some arr \<and>
                 map_of (hostToStartTime b) otherHost = Some start \<and>
                 time > double_add start (int (length arr))))"
  then have "candidateStep b ev (clk, candidates) (otherHost, time) =
      Inl (OutOfBoundsTimeError ev otherHost time)"
    using increased by (auto simp: candidateStep_def Let_def)
  with before
  show "forEach (candidateStep b ev) s0 (before @ (otherHost, time) # after) =
          Inl (OutOfBoundsTimeError ev otherHost time)"
    by (simp add: forEach_append)
next
  fix start :: int and n :: nat
  assume "\<bar>start + int n\<bar> \<le> 9007199254740992"
  then show "double_add start (int n) = start + int n" by (rule double_add_exact)
qed

text \<open>
  On Scenario C: after the entry of \<open>h1\<close> itself, the entry 4 for the absent host \<open>h9\<close>
  is skipped, and the entry 5 for \<open>h3\<close>, which has two events, is out of bounds.
\<close>

theorem candidateStep_absent_or_out_of_bounds_witness:
  "forEach (candidateStep (afterPrevNext scenario_C) (scenario_C ! 2)) ([(''h1'', 1)], [])
     ([(''h1'', 1)] @ [(''h9'', 4)]) = Inr ([(''h1'', 1), (''h9'', 4)], []) \<and>
   forEach (candidateStep (afterPrevNext scenario_C) (scenario_C ! 2)) ([(''h1'', 1)], [])
     ([(''h1'', 1), (''h9'', 4)] @ (''h3'', 5) # []) =
     Inl (OutOfBoundsTimeError (scenario_C ! 2) ''h3'' 5) \<and>
   double_add 0 (int (2::nat)) = 0 + int (2::nat)"
proof -
  let ?b = "afterPrevNext scenario_C"
  let ?ev = "scenario_C ! 2"
  have b: "hostSet ?b = [''h3'', ''h1''] \<and> map_of (hostToNodes ?b) ''h3'' = Some [0, 3] \<and>
      map_of (hostToStartTime ?b) ''h3'' = Some 0"
    by (simp add: afterPrevNext_def scenario_C_def initHosts_eval initPrevNext_eval)
  have s1: "forEach (candidateStep ?b ?ev) ([(''h1'', 1)], []) [(''h1'', 1)] = Inr ([(''h1'', 1)], [])"
    by (simp add: candidateStep_def)
  have s2: "forEach (candidateStep ?b ?ev) ([(''h1'', 1)], []) [(''h1'', 1), (''h9'', 4)] =
      Inr ([(''h1'', 1), (''h9'', 4)], [])"
    using b by (simp add: candidateStep_def)
  from candidateStep_absent_or_out_of_bounds [OF s1, where otherHost = "''h9''" and time = 4] b
  have "forEach (candidateStep ?b ?ev) ([(''h1'', 1)], []) ([(''h1'', 1)] @ [(''h9'', 4)]) =
      Inr ([(''h1'', 1), (''h9'', 4)], [])"
    by simp
  moreover from candidateStep_absent_or_out_of_bounds [OF s2, where otherHost = "''h3''" and time = 5] b
  have "forEach (candidateStep ?b ?ev) ([(''h1'', 1)], []) ([(''h1'', 1), (''h9'', 4)] @ (''h3'', 5) # []) =
      Inl (OutOfBoundsTimeError ?ev ''h3'' 5) \<and> double_add 0 (int (2::nat)) = 0 + int (2::nat)"
    by (simp add: double_add_exact)
  ultimately show ?thesis by blast
qed

text \<open>
  The claim as stated fails where the sum is rounded. Host \<open>h2\<close> has three events at
  the local time 9007199254740996: each sum with 1 is rounded back to that time, so
  the increment check accepts them, and the window starts at 9007199254740996. The
  event of \<open>h1\<close> has the entry 9007199254741000 for \<open>h2\<close>, above the window start plus
  three: the sum 9007199254740999 is rounded to 9007199254741000, no error is raised,
  and the index 3 reads \<^verbatim>\<open>undefined\<close>, so the entry only updates the running clock.
\<close>

definition beyond_2_53 :: "LogEvent list" where
  "beyond_2_53 = [event_at ''h2'' 9007199254740996 [(''h2'', 9007199254740996)],
                  event_at ''h2'' 9007199254740996 [(''h2'', 9007199254740996)],
                  event_at ''h2'' 9007199254740996 [(''h2'', 9007199254740996)],
                  event_at ''h1'' 1 [(''h1'', 1), (''h2'', 9007199254741000)]]"

lemma afterPrevNext_beyond_2_53:
  "hostSet (afterPrevNext beyond_2_53) = [''h2'', ''h1'']"
  "map_of (hostToNodes (afterPrevNext beyond_2_53)) ''h2'' = Some [0, 3, 4]"
  "map_of (hostToStartTime (afterPrevNext beyond_2_53)) ''h2'' = Some 9007199254740996"
  by (simp_all add: afterPrevNext_def beyond_2_53_def initHosts_eval initPrevNext_eval double_eval)

theorem candidateStep_rounded_sum:
  "forEach (candidateStep (afterPrevNext beyond_2_53) (beyond_2_53 ! 3)) ([(''h1'', 1)], [])
     [(''h1'', 1), (''h2'', 9007199254741000)] =
     Inr ([(''h1'', 1), (''h2'', 9007199254741000)], []) \<and>
   map_of (hostToStartTime (afterPrevNext beyond_2_53)) ''h2'' = Some 9007199254740996 \<and>
   map_option length (map_of (hostToNodes (afterPrevNext beyond_2_53)) ''h2'') = Some 3 \<and>
   (9007199254741000 :: int) > 9007199254740996 + 3"
  by (simp add: afterPrevNext_beyond_2_53 candidateStep_def double_eval)

text \<open>The constructor returns a graph for that log: the event of \<open>h1\<close>, node 5, has no parent.\<close>

lemma ModelGraph_beyond_2_53:
  "(case ModelGraph empty_heap beyond_2_53 of
      Some (Inr b) \<Rightarrow> Some (hostToParent (cells (hp b) 5), map (\<lambda>a. children (cells (hp b) a)) [0, 3, 4])
    | _ \<Rightarrow> None) = Some ([], [[], [], []])"
  by (simp add: beyond_2_53_def initHosts_eval initPrevNext_eval initParentChild_eval double_eval)

text \<open>The constructor on Scenario C raises that error.\<close>

lemma ModelGraph_scenario_C:
  "ModelGraph empty_heap scenario_C = Some (Inl (OutOfBoundsTimeError (scenario_C ! 2) ''h3'' 5))"
  by (simp add: scenario_C_def initHosts_eval initPrevNext_eval initParentChild_eval)

text \<open>
  C10. In the same loop, let the next entry \<open>(otherHost, time)\<close> have increased with
  respect to the running clock, for a host of the host set with its array of nodes and
  its window start. If \<open>1 \<le> time \<le> start\<close>, the entry updates the running clock
  to \<open>time\<close> and nothing else: the candidates are unchanged and no error is raised.
\<close>

theorem candidateStep_before_window:
  assumes before: "forEach (candidateStep b ev) s0 before = Inr (clk, candidates)"
      and increased: "case map_of clk otherHost of None \<Rightarrow> True | Some c \<Rightarrow> c < time"
      and present: "otherHost \<in> set (hostSet b)"
      and arr: "map_of (hostToNodes b) otherHost = Some arr"
      and start: "map_of (hostToStartTime b) otherHost = Some start"
      and low: "1 \<le> time"
      and high: "time \<le> start"
  shows "forEach (candidateStep b ev) s0 (before @ [(otherHost, time)]) =
           Inr (AList.update otherHost time clk, candidates)"
proof -
  have "candidateStep b ev (clk, candidates) (otherHost, time) =
      Inr (AList.update otherHost time clk, candidates)"
    using increased present arr start low high
      order_trans [OF high double_add_ge [of "int (length arr)" start]]
      double_sub_neg [OF high]
    by (simp add: candidateStep_def Let_def)
  with before show ?thesis by (simp add: forEach_append)
qed

text \<open>
  On the window: \<open>h2\<close> starts at 4, the entry 3 for \<open>h2\<close> is dropped, and the constructor
  returns a graph in which the event of \<open>h1\<close> (node 4) has no parent, and no node has a child.
\<close>

theorem candidateStep_before_window_witness:
  "forEach (candidateStep (afterPrevNext before_window) (before_window ! 2)) ([(''h1'', 1)], [])
     ([(''h1'', 1)] @ [(''h2'', 3)]) = Inr ([(''h1'', 1), (''h2'', 3)], [])"
proof -
  let ?b = "afterPrevNext before_window"
  let ?ev = "before_window ! 2"
  have b: "hostSet ?b = [''h2'', ''h1''] \<and> map_of (hostToNodes ?b) ''h2'' = Some [0, 3] \<and>
      map_of (hostToStartTime ?b) ''h2'' = Some 4"
    by (simp add: afterPrevNext_def before_window_def initHosts_eval initPrevNext_eval)
  have s1: "forEach (candidateStep ?b ?ev) ([(''h1'', 1)], []) [(''h1'', 1)] = Inr ([(''h1'', 1)], [])"
    by (simp add: candidateStep_def)
  from candidateStep_before_window [OF s1, where otherHost = "''h2''" and time = 3 and arr = "[0, 3]" and start = 4] b
  show ?thesis by simp
qed

lemma ModelGraph_before_window:
  "case ModelGraph empty_heap before_window of
     Some (Inr b) \<Rightarrow>
       hostToParent (cells (hp b) 4) = [] \<and> children (cells (hp b) 4) = [] \<and>
       logEvents (cells (hp b) 4) = [before_window ! 2] \<and>
       children (cells (hp b) 0) = [] \<and> children (cells (hp b) 3) = []
   | _ \<Rightarrow> False"
  by (simp add: before_window_def initHosts_eval initPrevNext_eval initParentChild_eval)


section \<open>What the constructor checks\<close>

text \<open>Rules for the loops: an invariant of the state, and a property of every error.\<close>

lemma forEach_rule:
  assumes "forEach f s ks = r"
      and "I s"
      and "\<And>s k s'. I s \<Longrightarrow> f s k = Inr s' \<Longrightarrow> I s'"
      and "\<And>s k e. I s \<Longrightarrow> f s k = Inl e \<Longrightarrow> E e"
  shows "case r of Inl e \<Rightarrow> E e | Inr s' \<Rightarrow> I s'"
  using assms(1,2)
proof (induction ks arbitrary: s)
  case Nil
  then show ?case by auto
next
  case (Cons k ks)
  show ?case
  proof (cases "f s k")
    case (Inl e)
    with Cons.prems assms(4) [of s k e] show ?thesis by auto
  next
    case (Inr s')
    with Cons.prems assms(3) [of s k s'] Cons.IH [of s'] show ?thesis by auto
  qed
qed

lemma forEachHost_rule:
  assumes "forEachHost f b hs = Some r"
      and "I b"
      and "\<And>b h b'. I b \<Longrightarrow> f b h = Some (Inr b') \<Longrightarrow> I b'"
      and "\<And>b h e. I b \<Longrightarrow> f b h = Some (Inl e) \<Longrightarrow> E e"
  shows "case r of Inl e \<Rightarrow> E e | Inr b' \<Rightarrow> I b'"
  using assms(1,2)
proof (induction hs arbitrary: b)
  case Nil
  then show ?case by auto
next
  case (Cons h hs)
  show ?case
  proof (cases "f b h")
    case None
    with Cons.prems show ?thesis by simp
  next
    case (Some x)
    show ?thesis
    proof (cases x)
      case (Inl e)
      with Some Cons.prems assms(4) [of b h e] show ?thesis by auto
    next
      case (Inr b')
      with Some Cons.prems assms(3) [of b h b'] Cons.IH [of b'] show ?thesis by auto
    qed
  qed
qed

lemma walkChain_rule:
  assumes walk: "walkChain h tail b clk currNode = Some r"
      and inv: "I b"
      and step: "\<And>b clk c b' clk'. I b \<Longrightarrow> processNode b h clk c = Inr (b', clk') \<Longrightarrow> I b'"
      and err: "\<And>b clk c e. I b \<Longrightarrow> processNode b h clk c = Inl e \<Longrightarrow> E e"
      and type_error: "E TypeError"
  shows "case r of Inl e \<Rightarrow> E e | Inr b' \<Rightarrow> I b'"
proof -
  let ?P = "\<lambda>h' (tail :: nat option) b (clk :: (string \<times> int) list) (currNode :: nat option) r.
      h' = h \<longrightarrow> I b \<longrightarrow> (case r of Inl e \<Rightarrow> E e | Inr b' \<Rightarrow> I b')"
  have "?P h tail b clk currNode r"
  proof (rule walkChain.raw_induct [where P = ?P, OF _ walk])
    fix wc h' tail b clk currNode r
    assume IH: "\<And>h'' tail b clk currNode y. wc h'' tail b clk currNode = Some y \<Longrightarrow>
        ?P h'' tail b clk currNode y"
    assume body:
      "(if currNode = tail then Some (Inr b)
        else case currNode of
               None \<Rightarrow> Some (Inl TypeError)
             | Some c \<Rightarrow>
                 (case processNode b h' clk c of
                    Inl e \<Rightarrow> Some (Inl e)
                  | Inr (b', clk') \<Rightarrow> wc h' tail b' clk' (next (cells (hp b') c)))) = Some r"
    show "?P h' tail b clk currNode r"
    proof (intro impI)
      assume h: "h' = h" and inv: "I b"
      show "case r of Inl e \<Rightarrow> E e | Inr b' \<Rightarrow> I b'"
      proof (cases "currNode = tail")
        case True
        with body inv show ?thesis by auto
      next
        case False
        show ?thesis
        proof (cases currNode)
          case None
          with False body type_error show ?thesis by auto
        next
          case (Some c)
          show ?thesis
          proof (cases "processNode b h clk c")
            case (Inl e)
            with Some False body h err [OF inv Inl] show ?thesis by auto
          next
            case (Inr p)
            obtain b' clk' where p: "p = (b', clk')" by (cases p)
            from Inr p Some False body h
            have "wc h tail b' clk' (next (cells (hp b') c)) = Some r" by simp
            from IH [OF this] step [OF inv Inr [unfolded p]] show ?thesis by simp
          qed
        qed
      qed
    qed
  qed
  with inv show ?thesis by blast
qed

text \<open>The errors of the three phases.\<close>

definition constructionError :: "error \<Rightarrow> bool" where
  "constructionError e =
     (case e of
        ClockIncrementError l n \<Rightarrow> True
      | OutOfBoundsTimeError ev h t \<Rightarrow> True
      | TypeError \<Rightarrow> True
      | _ \<Rightarrow> False)"

lemma checkIncrements_error:
  "checkIncrements h l c arr = Inl e \<Longrightarrow> constructionError e"
  by (induction arr arbitrary: l c)
     (auto simp: constructionError_def getClockIncrementException_def
       split: option.splits if_splits)

lemma insertAll_error:
  "insertAll l arr h = Inl e \<Longrightarrow> constructionError e"
  by (induction arr arbitrary: l h)
     (auto simp: constructionError_def insertNext_def split: option.splits sum.splits)

lemma initPrevNext_host_error:
  "initPrevNext_host b h = Inl e \<Longrightarrow> constructionError e"
  unfolding initPrevNext_host_def Let_def sortByLocalTime_def
  by (auto split: option.splits sum.splits if_splits
      dest: checkIncrements_error insertAll_error simp: constructionError_def)

lemma initPrevNext_error:
  "initPrevNext b = Inl e \<Longrightarrow> constructionError e"
  using forEach_rule [of initPrevNext_host b "forIn id (map fst (hostToNodes b))" "Inl e" "\<lambda>_. True" constructionError]
  by (auto simp: initPrevNext_def dest: initPrevNext_host_error)

lemma candidateStep_error:
  "candidateStep b ev s entry = Inl e \<Longrightarrow> constructionError e"
  by (auto simp: candidateStep_def Let_def constructionError_def
      split: prod.splits option.splits if_splits)

lemma gatherConnections_error:
  "gatherConnections h cs conn = Inl e \<Longrightarrow> e = TypeError"
  by (induction cs arbitrary: conn) (auto split: option.splits)

lemma pruneConnections_error:
  "pruneConnections h cs conn = Inl e \<Longrightarrow> e = TypeError"
  by (induction cs arbitrary: conn) (auto split: option.splits)

lemma keepStep_error:
  "keepStep c h n = Inl e \<Longrightarrow> e = TypeError"
  by (auto simp: keepStep_def split: option.splits if_splits)

lemma processNode_error:
  assumes "processNode b h clk c = Inl e"
  shows "constructionError e"
proof -
  have T: "constructionError TypeError" by (simp add: constructionError_def)
  have cand: "forEach (candidateStep b ev) s ks = Inl e \<Longrightarrow> constructionError e" for ev s ks
    using forEach_rule [of "candidateStep b ev" s ks "Inl e" "\<lambda>_. True" constructionError]
    by (auto dest: candidateStep_error)
  have keep: "forEach (keepStep c) s ks = Inl e \<Longrightarrow> constructionError e" for s ks
    using forEach_rule [of "keepStep c" s ks "Inl e" "\<lambda>_. True" constructionError] T
    by (auto dest: keepStep_error)
  from assms show ?thesis
    unfolding processNode_def Let_def
    by (auto split: option.splits sum.splits prod.splits
        dest: cand keep gatherConnections_error pruneConnections_error simp: T)
qed

lemma initParentChild_error:
  assumes "initParentChild b = Some (Inl e)"
  shows "constructionError e"
proof -
  have T: "constructionError TypeError" by (simp add: constructionError_def)
  have host: "constructionError e'" if "initParentChild_host b' h = Some (Inl e')" for b' h e'
  proof (cases "map_of (hostToHead (mg b')) h")
    case None
    with that T show ?thesis by (simp add: initParentChild_host_def)
  next
    case (Some head)
    with that have "walkChain h (map_of (hostToTail (mg b')) h) b' [] (next (cells (hp b') head)) =
        Some (Inl e')"
      by (simp add: initParentChild_host_def)
    from walkChain_rule [OF this, where I = "\<lambda>_. True" and E = constructionError] T
    show ?thesis by (auto dest: processNode_error)
  qed
  from forEachHost_rule [of initParentChild_host b "forIn id (hostSet b)" "Inl e" "\<lambda>_. True" constructionError]
    assms host
  show ?thesis by (auto simp: initParentChild_def)
qed

text \<open>
  Sample input: two events whose clocks each hold the other's time, so that each is a
  parent of the other.
\<close>

definition mutual_parents :: "LogEvent list" where
  "mutual_parents = [event_at ''a'' 1 [(''a'', 1), (''b'', 1)],
                     event_at ''b'' 1 [(''b'', 1), (''a'', 1)]]"

text \<open>
  C1, as the code has it. The constructor runs \<^verbatim>\<open>initHosts\<close>, \<^verbatim>\<open>initPrevNext\<close> and
  \<^verbatim>\<open>initParentChild\<close> and nothing else: \<^verbatim>\<open>stepThroughAndVerify\<close> is defined and never
  called. An error of the constructor is therefore an increment error of
  \<^verbatim>\<open>initPrevNext\<close>, an out-of-bounds time of \<^verbatim>\<open>initParentChild\<close>, or an error of the
  runtime; it is never \<open>IntransitivityError\<close> or \<open>ImpermissibleClockError\<close>.
\<close>

theorem ModelGraph_errors:
  assumes "ModelGraph h evs = Some (Inl e)"
  shows "((\<exists>l n. e = ClockIncrementError l n) \<or> (\<exists>ev k t. e = OutOfBoundsTimeError ev k t) \<or>
          e = TypeError) \<and>
         e \<noteq> IntransitivityError \<and> (\<forall>ev c. e \<noteq> ImpermissibleClockError ev c)"
proof -
  from assms have "constructionError e"
    by (auto simp: ModelGraph_def constructionError_def split: sum.splits if_splits
        dest: initPrevNext_error initParentChild_error)
  then show ?thesis
    by (cases e) (auto simp: constructionError_def)
qed

theorem ModelGraph_errors_witness:
  "ModelGraph empty_heap window_578 =
     Some (Inl (ClockIncrementError (window_578 ! 0) (window_578 ! 1))) \<and>
   ClockIncrementError (window_578 ! 0) (window_578 ! 1) \<noteq> IntransitivityError"
proof -
  have m: "ModelGraph empty_heap window_578 =
      Some (Inl (ClockIncrementError (window_578 ! 0) (window_578 ! 1)))"
    by (simp add: window_578_def initHosts_eval initPrevNext_eval initParentChild_eval)
  from ModelGraph_errors [OF m] m show ?thesis by blast
qed

text \<open>
  The claim as stated fails: on \<open>mutual_parents\<close> the constructor returns a graph in
  which the event of \<open>a\<close> (node 0) is the parent and the child of the event of \<open>b\<close>
  (node 3). The cross-host edges form a cycle, and no error is raised.
\<close>

theorem ModelGraph_returns_cycle:
  "(case ModelGraph empty_heap mutual_parents of
      Some (Inr b) \<Rightarrow>
        Some (hostToParent (cells (hp b) 0), children (cells (hp b) 0),
              hostToParent (cells (hp b) 3), children (cells (hp b) 3))
    | _ \<Rightarrow> None) =
   Some ([(''b'', 3)], [3], [(''a'', 0)], [0])"
  by (simp add: mutual_parents_def initHosts_eval initPrevNext_eval initParentChild_eval)

text \<open>
  Hosts named by array indices are visited in numeric order, whatever the order of their
  first events: of the hosts \<open>10\<close> and \<open>9\<close>, both with a gap, the error names the events
  of \<open>9\<close>. And a host named like a member of \<^verbatim>\<open>Object.prototype\<close> makes the constructor
  raise a \<open>TypeError\<close>.
\<close>

definition index_hosts :: "LogEvent list" where
  "index_hosts = [event_at ''10'' 1 [(''10'', 1)], event_at ''10'' 3 [(''10'', 3)],
                  event_at ''9'' 1 [(''9'', 1)], event_at ''9'' 3 [(''9'', 3)]]"

lemma ModelGraph_index_hosts:
  "ModelGraph empty_heap index_hosts =
     Some (Inl (ClockIncrementError (index_hosts ! 2) (index_hosts ! 3)))"
  by (simp add: index_hosts_def initHosts_eval initPrevNext_eval initParentChild_eval indexValue_def)

lemma ModelGraph_inherited_host:
  "ModelGraph h [event_at ''constructor'' 1 [(''constructor'', 1)]] = Some (Inl TypeError)"
  by (simp add: ModelGraph_def inherited_def event_at_def getHost_def)

section \<open>One parent per host\<close>

text \<open>What \<open>addChild\<close> changes: the parents of the child and lists of children.\<close>

lemma addChild_frame:
  "host (cells (addChild p c h) a) = host (cells h a)"
  "logEvents (cells (addChild p c h) a) = logEvents (cells h a)"
  "prev (cells (addChild p c h) a) = prev (cells h a)"
  "next (cells (addChild p c h) a) = next (cells h a)"
  "count (addChild p c h) = count h"
  by (auto simp: addChild_def modify_def Let_def split: option.splits)

lemma addChild_hostToParent:
  "hostToParent (cells (addChild p c h) a) =
     (if a = c then AList.update (host (cells h p)) p (hostToParent (cells h c))
      else hostToParent (cells h a))"
  by (auto simp: addChild_def modify_def Let_def split: option.splits)

lemma addChild_observers:
  "getFirstLogEvent (addChild p c h) = getFirstLogEvent h"
  "getVT (addChild p c h) = getVT h"
  "getTime (addChild p c h) = getTime h"
  "timeOf (addChild p c h) = timeOf h"
  by (auto simp: fun_eq_iff getFirstLogEvent_def getVT_def getTime_def timeOf_def addChild_frame)

text \<open>
  The parents of a node, and the invariant: in the dictionary \<^verbatim>\<open>hostToParent\<close> of every
  node, no host has two entries, and the entry of a host is a node of that host.
\<close>

definition getParents :: "heap \<Rightarrow> nat \<Rightarrow> nat list" where
  "getParents h n = map snd (hostToParent (cells h n))"

definition parents_ok :: "heap \<Rightarrow> bool" where
  "parents_ok h =
     (\<forall>n. distinct (map fst (hostToParent (cells h n))) \<and>
          (\<forall>k p. map_of (hostToParent (cells h n)) k = Some p \<longrightarrow> host (cells h p) = k))"

definition heap_closed :: "heap \<Rightarrow> bool" where
  "heap_closed h = (\<forall>n k p. map_of (hostToParent (cells h n)) k = Some p \<longrightarrow> p < count h)"

lemma parents_ok_unique:
  assumes "parents_ok h"
      and "p \<in> set (getParents h n)" and "q \<in> set (getParents h n)"
      and "host (cells h p) = host (cells h q)"
  shows "p = q"
proof -
  let ?al = "hostToParent (cells h n)"
  from assms(1) have d: "distinct (map fst ?al)"
    and hosts: "\<And>k p. map_of ?al k = Some p \<Longrightarrow> host (cells h p) = k"
    by (auto simp: parents_ok_def)
  from assms(2,3) obtain k1 k2 where "(k1, p) \<in> set ?al" "(k2, q) \<in> set ?al"
    by (auto simp: getParents_def)
  with d have m: "map_of ?al k1 = Some p" "map_of ?al k2 = Some q" by simp_all
  with hosts assms(4) have "k1 = k2" by metis
  with m show ?thesis by simp
qed

lemma parents_ok_addChild:
  assumes "parents_ok h"
  shows "parents_ok (addChild p c h)"
  unfolding parents_ok_def
proof (intro allI conjI impI)
  fix n
  from assms show "distinct (map fst (hostToParent (cells (addChild p c h) n)))"
    by (simp add: parents_ok_def addChild_hostToParent distinct_update)
next
  fix n k q
  assume "map_of (hostToParent (cells (addChild p c h) n)) k = Some q"
  with assms show "host (cells (addChild p c h) q) = k"
    by (auto simp: parents_ok_def addChild_hostToParent addChild_frame update_conv'
        split: if_splits)
qed

lemma keepStep_cases:
  "keepStep c h n = Inr h' \<Longrightarrow> h' = h \<or> h' = addChild n c h"
  by (auto simp: keepStep_def addParent_def split: option.splits if_splits)

lemma parents_ok_keepStep:
  "parents_ok h \<Longrightarrow> keepStep c h n = Inr h' \<Longrightarrow> parents_ok h'"
  by (auto dest!: keepStep_cases simp: parents_ok_addChild)

lemma parents_ok_processNode:
  assumes "parents_ok (hp b)" and "processNode b h clk c = Inr (b', clk')"
  shows "parents_ok (hp b')"
proof -
  from assms(2) obtain ks h' where k: "forEach (keepStep c) (hp b) ks = Inr h'" and b': "hp b' = h'"
    unfolding processNode_def Let_def
    by (auto split: option.splits sum.splits prod.splits)
  from forEach_rule [OF k, of parents_ok "\<lambda>_. True"] assms(1) b' show ?thesis
    by (auto dest: parents_ok_keepStep)
qed

lemma parents_ok_initParentChild:
  assumes "initParentChild b = Some (Inr b')" and "parents_ok (hp b)"
  shows "parents_ok (hp b')"
proof -
  have host: "parents_ok (hp b2)"
    if "parents_ok (hp b1)" "initParentChild_host b1 h = Some (Inr b2)" for b1 b2 h
  proof (cases "map_of (hostToHead (mg b1)) h")
    case None
    with that show ?thesis by (simp add: initParentChild_host_def)
  next
    case (Some head)
    with that have "walkChain h (map_of (hostToTail (mg b1)) h) b1 [] (next (cells (hp b1) head)) =
        Some (Inr b2)"
      by (simp add: initParentChild_host_def)
    from walkChain_rule [OF this, where I = "\<lambda>b. parents_ok (hp b)" and E = "\<lambda>_. True"] that(1)
    show ?thesis by (auto dest: parents_ok_processNode)
  qed
  from forEachHost_rule [of initParentChild_host b "forIn id (hostSet b)" "Inr b'"
      "\<lambda>b. parents_ok (hp b)" "\<lambda>_. True"] assms host
  show ?thesis by (auto simp: initParentChild_def)
qed

text \<open>The first two phases add no parent.\<close>

lemma parents_alloc:
  assumes ok: "parents_ok h" and closed: "heap_closed h" and empty: "hostToParent n = []"
  shows "parents_ok (snd (alloc n h)) \<and> heap_closed (snd (alloc n h))"
proof -
  let ?h = "snd (alloc n h)"
  have cell: "cells ?h a = (if a = count h then n else cells h a)" for a
    by (simp add: alloc_def)
  have lt: "p < count h" if "map_of (hostToParent (cells h a)) k = Some p" for a k p
    using closed that by (auto simp: heap_closed_def)
  have "parents_ok ?h"
    unfolding parents_ok_def
  proof (intro allI conjI impI)
    fix a
    show "distinct (map fst (hostToParent (cells ?h a)))"
      using ok empty by (simp add: cell parents_ok_def)
  next
    fix a k p
    assume m: "map_of (hostToParent (cells ?h a)) k = Some p"
    with empty have a: "a \<noteq> count h" by (auto simp: cell)
    with m have m': "map_of (hostToParent (cells h a)) k = Some p" by (simp add: cell)
    from lt [OF m'] have "p \<noteq> count h" by simp
    with ok m' show "host (cells ?h p) = k" by (simp add: cell parents_ok_def)
  qed
  moreover have "heap_closed ?h"
    unfolding heap_closed_def
  proof (intro allI impI)
    fix a k p
    assume m: "map_of (hostToParent (cells ?h a)) k = Some p"
    with empty have a: "a \<noteq> count h" by (auto simp: cell)
    with m have "map_of (hostToParent (cells h a)) k = Some p" by (simp add: cell)
    from lt [OF this] show "p < count ?h" by (simp add: alloc_def)
  qed
  ultimately show ?thesis by blast
qed

lemma parents_add_node:
  assumes "parents_ok (hp b) \<and> heap_closed (hp b)" and "hostToParent n = []"
  shows "parents_ok (hp (snd (add_node n b))) \<and> heap_closed (hp (snd (add_node n b)))"
  using parents_alloc [of "hp b" n] assms
  by (simp add: add_node_def split_beta)

lemma parents_initHosts_step:
  assumes "parents_ok (hp b) \<and> heap_closed (hp b)"
  shows "parents_ok (hp (initHosts_step b ev)) \<and> heap_closed (hp (initHosts_step b ev))"
proof -
  let ?n = "(new_ModelNode [ev])\<lparr>host := getHost ev\<rparr>"
  let ?b1 = "snd (add_node ?n b)"
  let ?hd = "(new_ModelNode [])\<lparr>host := getHost ev, prev := None,
      next := Some (Suc (count (hp ?b1))), isHeadInner := True\<rparr>"
  let ?b2 = "snd (add_node ?hd ?b1)"
  let ?tl = "(new_ModelNode [])\<lparr>host := getHost ev, prev := Some (count (hp ?b1)),
      next := None, isTailInner := True\<rparr>"
  let ?b3 = "snd (add_node ?tl ?b2)"
  have 1: "parents_ok (hp ?b1) \<and> heap_closed (hp ?b1)"
    by (rule parents_add_node [OF assms]) (simp add: new_ModelNode_def)
  have 2: "parents_ok (hp ?b2) \<and> heap_closed (hp ?b2)"
    by (rule parents_add_node [OF 1]) (simp add: new_ModelNode_def)
  have 3: "parents_ok (hp ?b3) \<and> heap_closed (hp ?b3)"
    by (rule parents_add_node [OF 2]) (simp add: new_ModelNode_def)
  have "hp (initHosts_step b ev) = hp ?b1 \<or> hp (initHosts_step b ev) = hp ?b3"
    by (simp add: initHosts_step_def Let_def split_beta)
  with 1 3 show ?thesis by auto
qed

lemma parents_initHosts:
  "parents_ok (hp b) \<and> heap_closed (hp b) \<Longrightarrow>
   parents_ok (hp (initHosts b evs)) \<and> heap_closed (hp (initHosts b evs))"
  unfolding initHosts_def
  by (induction evs arbitrary: b) (simp_all add: parents_initHosts_step)

lemma insertNext_parents:
  "insertNext l n h = Inr h' \<Longrightarrow>
   hostToParent (cells h' a) = hostToParent (cells h a) \<and> host (cells h' a) = host (cells h a)"
  by (auto simp: insertNext_def modify_def split: option.splits)

lemma insertAll_parents:
  "insertAll l arr h = Inr h' \<Longrightarrow>
   hostToParent (cells h' a) = hostToParent (cells h a) \<and> host (cells h' a) = host (cells h a)"
proof (induction arr arbitrary: l h)
  case Nil
  then show ?case by simp
next
  case (Cons n arr)
  then obtain h1 where "insertNext l n h = Inr h1" "insertAll n arr h1 = Inr h'"
    by (auto split: sum.splits)
  with Cons.IH [of n h1] insertNext_parents [of l n h h1 a] show ?case by simp
qed

lemma parents_ok_cong:
  assumes "parents_ok h"
      and "\<And>a. hostToParent (cells h' a) = hostToParent (cells h a) \<and> host (cells h' a) = host (cells h a)"
  shows "parents_ok h'"
  using assms by (simp add: parents_ok_def)

lemma parents_ok_initPrevNext_host:
  assumes "parents_ok (hp b)" and "initPrevNext_host b h = Inr b'"
  shows "parents_ok (hp b')"
proof -
  from assms(2) have "hp b' = hp b \<or> (\<exists>l arr. insertAll l arr (hp b) = Inr (hp b'))"
    unfolding initPrevNext_host_def Let_def
    by (auto split: option.splits sum.splits if_splits)
  with assms(1) show ?thesis
    by (auto intro: parents_ok_cong [OF assms(1)] dest: insertAll_parents)
qed

lemma parents_ok_initPrevNext:
  assumes "parents_ok (hp b)" and "initPrevNext b = Inr b'"
  shows "parents_ok (hp b')"
  using forEach_rule [of initPrevNext_host b "forIn id (map fst (hostToNodes b))" "Inr b'"
      "\<lambda>b. parents_ok (hp b)" "\<lambda>_. True"] assms
  by (auto simp: initPrevNext_def dest: parents_ok_initPrevNext_host)

lemma parents_ok_ModelGraph:
  assumes "parents_ok h" and "heap_closed h" and "ModelGraph h evs = Some (Inr b)"
  shows "parents_ok (hp b)"
proof -
  from assms(3) obtain b1 where 1: "initPrevNext (initHosts (new_builder h) evs) = Inr b1"
    and 2: "initParentChild b1 = Some (Inr b)"
    by (auto simp: ModelGraph_def split: sum.splits if_splits)
  have "parents_ok (hp (initHosts (new_builder h) evs))"
    using parents_initHosts [of "new_builder h" evs] assms(1,2) by (simp add: new_builder_def)
  from parents_ok_initParentChild [OF 2 parents_ok_initPrevNext [OF this 1]] show ?thesis .
qed

text \<open>
  The parent that the loop of lines 206 to 218 keeps on one host, given the parent
  \<open>cur\<close> the node has there and the nodes of that host that are offered, in order.
\<close>

fun keptParent :: "heap \<Rightarrow> nat option \<Rightarrow> nat list \<Rightarrow> nat option" where
  "keptParent h cur [] = cur"
| "keptParent h None (n # ns) = keptParent h (Some n) ns"
| "keptParent h (Some p) (n # ns) =
     keptParent h (if timeOf h n > timeOf h p then Some n else Some p) ns"

lemma keptParent_cong:
  "(\<And>a. timeOf h' a = timeOf h a) \<Longrightarrow> keptParent h' cur ns = keptParent h cur ns"
  by (induction h cur ns rule: keptParent.induct) simp_all

lemma keptParent_Some_max:
  "\<exists>p \<in> insert p0 (set ns). keptParent h (Some p0) ns = Some p \<and>
      (\<forall>m \<in> insert p0 (set ns). timeOf h m \<le> timeOf h p)"
proof (induction ns arbitrary: p0)
  case Nil
  then show ?case by simp
next
  case (Cons n ns)
  show ?case
  proof (cases "timeOf h n > timeOf h p0")
    case True
    from Cons.IH [of n] obtain p where "p \<in> insert n (set ns)" "keptParent h (Some n) ns = Some p"
      "\<forall>m \<in> insert n (set ns). timeOf h m \<le> timeOf h p" by blast
    with True show ?thesis by (intro bexI [of _ p]) auto
  next
    case False
    from Cons.IH [of p0] obtain p where "p \<in> insert p0 (set ns)" "keptParent h (Some p0) ns = Some p"
      "\<forall>m \<in> insert p0 (set ns). timeOf h m \<le> timeOf h p" by blast
    with False show ?thesis by (intro bexI [of _ p]) auto
  qed
qed

lemma keptParent_None_max:
  assumes "ns \<noteq> []"
  shows "\<exists>p \<in> set ns. keptParent h None ns = Some p \<and> (\<forall>m \<in> set ns. timeOf h m \<le> timeOf h p)"
proof -
  from assms obtain n rest where ns: "ns = n # rest" by (cases ns) auto
  with keptParent_Some_max [of n rest h] show ?thesis by simp
qed

lemma keepStep_frame:
  assumes "keepStep c h n = Inr h'"
  shows "host (cells h' a) = host (cells h a)" and "timeOf h' a = timeOf h a"
  using keepStep_cases [OF assms] by (auto simp: addChild_frame addChild_observers)

lemma keepStep_parent:
  assumes "keepStep c h n = Inr h'"
  shows "map_of (hostToParent (cells h' c)) k =
           (if host (cells h n) = k
            then keptParent h (map_of (hostToParent (cells h c)) k) [n]
            else map_of (hostToParent (cells h c)) k)"
proof (cases "map_of (hostToParent (cells h c)) (host (cells h n))")
  case None
  with assms show ?thesis
    by (auto simp: keepStep_def addParent_def addChild_hostToParent update_conv')
next
  case (Some p)
  with assms obtain t tp where "getTime h n = Some t" "getTime h p = Some tp"
    by (auto simp: keepStep_def split: option.splits)
  with assms Some show ?thesis
    by (auto simp: keepStep_def addParent_def addChild_hostToParent update_conv' timeOf_def
        split: if_splits)
qed

lemma keptParent_Cons:
  "keptParent h cur (n # ns) = keptParent h (keptParent h cur [n]) ns"
  by (cases cur) simp_all

lemma keepLoop_parent:
  "forEach (keepStep c) h offered = Inr h' \<Longrightarrow>
   map_of (hostToParent (cells h' c)) k =
     keptParent h (map_of (hostToParent (cells h c)) k) (filter (\<lambda>n. host (cells h n) = k) offered)"
proof (induction offered arbitrary: h)
  case Nil
  then show ?case by simp
next
  case (Cons n offered)
  then obtain h1 where 1: "keepStep c h n = Inr h1" and 2: "forEach (keepStep c) h1 offered = Inr h'"
    by (auto split: sum.splits)
  have hosts: "(\<lambda>m. host (cells h1 m) = k) = (\<lambda>m. host (cells h m) = k)"
    by (simp add: keepStep_frame [OF 1])
  let ?cur = "map_of (hostToParent (cells h c)) k"
  let ?rest = "filter (\<lambda>m. host (cells h m) = k) offered"
  have "keptParent h1 (map_of (hostToParent (cells h1 c)) k) ?rest =
      keptParent h (map_of (hostToParent (cells h1 c)) k) ?rest"
    by (rule keptParent_cong) (rule keepStep_frame [OF 1])
  with Cons.IH [OF 2] have step: "map_of (hostToParent (cells h' c)) k =
      keptParent h (map_of (hostToParent (cells h1 c)) k) ?rest"
    by (simp only: hosts)
  show ?case
  proof (cases "host (cells h n) = k")
    case True
    with keepStep_parent [OF 1, of k]
    have "map_of (hostToParent (cells h1 c)) k = keptParent h ?cur [n]" by simp
    with step have "map_of (hostToParent (cells h' c)) k = keptParent h (keptParent h ?cur [n]) ?rest"
      by simp
    also have "\<dots> = keptParent h ?cur (n # ?rest)" by (rule keptParent_Cons [symmetric])
    finally show ?thesis using True by simp
  next
    case False
    with keepStep_parent [OF 1, of k]
    have "map_of (hostToParent (cells h1 c)) k = ?cur" by simp
    with step False show ?thesis by simp
  qed
qed

text \<open>
  C6. In a graph that the constructor returns, two parents of a node that are of the
  same host are the same node. And when the loop that adds the parents of a node is
  offered one or more nodes of a host on which the node has no parent yet, the parent
  it keeps on that host is one of them, and none of them has a larger local time: of two
  offered nodes of one host, the one with the larger time is the parent.
\<close>

theorem one_parent_per_host:
  "(parents_ok h0 \<and> heap_closed h0 \<and> ModelGraph h0 evs = Some (Inr b) \<and>
      p \<in> set (getParents (hp b) n) \<and> q \<in> set (getParents (hp b) n) \<and>
      host (cells (hp b) p) = host (cells (hp b) q) \<longrightarrow> p = q) \<and>
   (forEach (keepStep c) h offered = Inr h' \<and> map_of (hostToParent (cells h c)) k = None \<and>
      (\<exists>m \<in> set offered. host (cells h m) = k) \<longrightarrow>
      (\<exists>w \<in> set offered. host (cells h w) = k \<and>
          map_of (hostToParent (cells h' c)) k = Some w \<and>
          (\<forall>m \<in> set offered. host (cells h m) = k \<longrightarrow> timeOf h m \<le> timeOf h w)))"
proof (intro conjI impI)
  assume "parents_ok h0 \<and> heap_closed h0 \<and> ModelGraph h0 evs = Some (Inr b) \<and>
      p \<in> set (getParents (hp b) n) \<and> q \<in> set (getParents (hp b) n) \<and>
      host (cells (hp b) p) = host (cells (hp b) q)"
  then show "p = q"
    using parents_ok_unique [of "hp b" p n q] parents_ok_ModelGraph [of h0 evs b] by blast
next
  assume a: "forEach (keepStep c) h offered = Inr h' \<and> map_of (hostToParent (cells h c)) k = None \<and>
      (\<exists>m \<in> set offered. host (cells h m) = k)"
  let ?ns = "filter (\<lambda>n. host (cells h n) = k) offered"
  from a have "?ns \<noteq> []" by (auto simp: filter_empty_conv)
  from keptParent_None_max [OF this, of h] obtain w where
    w: "w \<in> set ?ns" "keptParent h None ?ns = Some w" "\<forall>m \<in> set ?ns. timeOf h m \<le> timeOf h w"
    by blast
  from a keepLoop_parent [of c h offered h' k] w(2)
  have "map_of (hostToParent (cells h' c)) k = Some w" by simp
  with w show "\<exists>w \<in> set offered. host (cells h w) = k \<and>
          map_of (hostToParent (cells h' c)) k = Some w \<and>
          (\<forall>m \<in> set offered. host (cells h m) = k \<longrightarrow> timeOf h m \<le> timeOf h w)"
    by (intro bexI [of _ w]) auto
qed

text \<open>
  Sample input: Scenario B of the spec, and a host \<open>a\<close> with two events next to a host
  \<open>b\<close> with one.
\<close>

definition scenario_B :: "LogEvent list" where
  "scenario_B = [event_at ''h1'' 1 [(''h1'', 1)], event_at ''h1'' 2 [(''h1'', 2), (''h2'', 1)],
                 event_at ''h2'' 1 [(''h2'', 1)], event_at ''h2'' 2 [(''h2'', 2), (''h1'', 2)]]"

definition two_on_a :: "LogEvent list" where
  "two_on_a = [event_at ''a'' 1 [(''a'', 1)], event_at ''a'' 2 [(''a'', 2)],
               event_at ''b'' 1 [(''b'', 1)]]"

lemma parents_ok_empty_heap: "parents_ok empty_heap \<and> heap_closed empty_heap"
  by (simp add: parents_ok_def heap_closed_def empty_heap_def new_ModelNode_def)

text \<open>
  On Scenario B the second event of \<open>h2\<close> (node 7) has the second event of \<open>h1\<close>
  (node 3) as its only parent. On the other input, the event of \<open>b\<close> (node 4) is offered
  both events of \<open>a\<close> (nodes 0 and 3, at times 1 and 2): in either order, node 3 is kept.
\<close>

theorem one_parent_per_host_witness:
  "(case ModelGraph empty_heap scenario_B of
      Some (Inr b) \<Rightarrow> getParents (hp b) 7 = [3] \<and> host (cells (hp b) 3) = ''h1''
    | _ \<Rightarrow> False) \<and>
   map_of (hostToParent (cells (projr (forEach (keepStep 4) (hp (afterPrevNext two_on_a)) [0, 3])) 4)) ''a'' =
     Some 3 \<and>
   map_of (hostToParent (cells (projr (forEach (keepStep 4) (hp (afterPrevNext two_on_a)) [3, 0])) 4)) ''a'' =
     Some 3"
proof -
  let ?h = "hp (afterPrevNext two_on_a)"
  have facts: "host (cells ?h 0) = ''a''" "host (cells ?h 3) = ''a''" "timeOf ?h 0 = 1" "timeOf ?h 3 = 2"
    "map_of (hostToParent (cells ?h 4)) ''a'' = None"
    by (simp_all add: afterPrevNext_def two_on_a_def initHosts_eval initPrevNext_eval)
  have r1: "forEach (keepStep 4) ?h [0, 3] = Inr (projr (forEach (keepStep 4) ?h [0, 3]))"
    by (simp add: afterPrevNext_def two_on_a_def initHosts_eval initPrevNext_eval keepStep_def
        addParent_def addChild_def)
  have r2: "forEach (keepStep 4) ?h [3, 0] = Inr (projr (forEach (keepStep 4) ?h [3, 0]))"
    by (simp add: afterPrevNext_def two_on_a_def initHosts_eval initPrevNext_eval keepStep_def
        addParent_def addChild_def)
  from one_parent_per_host [where c = 4 and h = ?h and offered = "[0, 3]" and k = "''a''"
      and h' = "projr (forEach (keepStep 4) ?h [0, 3])"] r1 facts
  have k1: "map_of (hostToParent (cells (projr (forEach (keepStep 4) ?h [0, 3])) 4)) ''a'' = Some 3"
    by auto
  from one_parent_per_host [where c = 4 and h = ?h and offered = "[3, 0]" and k = "''a''"
      and h' = "projr (forEach (keepStep 4) ?h [3, 0])"] r2 facts
  have k2: "map_of (hostToParent (cells (projr (forEach (keepStep 4) ?h [3, 0])) 4)) ''a'' = Some 3"
    by auto
  have g: "case ModelGraph empty_heap scenario_B of
      Some (Inr b) \<Rightarrow> getParents (hp b) 7 = [3] \<and> host (cells (hp b) 3) = ''h1''
    | _ \<Rightarrow> False"
    by (simp add: scenario_B_def getParents_def initHosts_eval initPrevNext_eval initParentChild_eval)
  from k1 k2 g show ?thesis by blast
qed

section \<open>clone\<close>

text \<open>
  The graphs that are cloned: the nodes of the graph are allocated and listed once;
  heads, tails, neighbours, children and parents are nodes of the graph; a node is among
  the children of its parents, and has each node whose child it is as its parent on that
  node's host.
\<close>

definition node_wf :: "heap \<Rightarrow> nat list \<Rightarrow> nat \<Rightarrow> bool" where
  "node_wf h ns a =
     (a < count h \<and>
      (\<forall>p \<in> set_option (prev (cells h a)). p \<in> set ns) \<and>
      (\<forall>p \<in> set_option (next (cells h a)). p \<in> set ns) \<and>
      distinct (children (cells h a)) \<and>
      (\<forall>c \<in> set (children (cells h a)).
          c \<in> set ns \<and> (host (cells h a), a) \<in> set (hostToParent (cells h c))) \<and>
      distinct (map fst (hostToParent (cells h a))) \<and>
      (\<forall>e \<in> set (hostToParent (cells h a)).
          snd e \<in> set ns \<and> host (cells h (snd e)) = fst e \<and> a \<in> set (children (cells h (snd e)))))"

definition wf_graph :: "heap \<Rightarrow> graph \<Rightarrow> bool" where
  "wf_graph h g =
     (distinct (nodes g) \<and>
      distinct (map fst (hostToHead g)) \<and> distinct (map fst (hostToTail g)) \<and>
      (\<forall>e \<in> set (hostToHead g). snd e \<in> set (nodes g)) \<and>
      (\<forall>e \<in> set (hostToTail g). snd e \<in> set (nodes g)) \<and>
      (\<forall>a \<in> set (nodes g). node_wf h (nodes g) a))"

text \<open>The new node of an old node: the nodes are copied in order, to fresh addresses.\<close>

fun indexOf :: "nat list \<Rightarrow> nat \<Rightarrow> nat" where
  "indexOf [] a = 0"
| "indexOf (x # xs) a = (if x = a then 0 else Suc (indexOf xs a))"

definition cloneMap :: "heap \<Rightarrow> nat list \<Rightarrow> nat \<Rightarrow> nat" where
  "cloneMap h ns a = count h + indexOf ns a"

definition copyNode :: "ModelNode \<Rightarrow> ModelNode" where
  "copyNode old = (new_ModelNode (logEvents old))
     \<lparr>host := host old, isHeadInner := isHeadInner old, isTailInner := isTailInner old\<rparr>"

lemma indexOf_less: "a \<in> set ns \<Longrightarrow> indexOf ns a < length ns"
  by (induction ns) auto

lemma indexOf_append:
  "indexOf (ns @ ms) a = (if a \<in> set ns then indexOf ns a else length ns + indexOf ms a)"
  by (induction ns) auto

lemma indexOf_inj: "a \<in> set ns \<Longrightarrow> b \<in> set ns \<Longrightarrow> indexOf ns a = indexOf ns b \<Longrightarrow> a = b"
  by (induction ns) (auto split: if_splits)

lemma cloneMap_fresh: "count h \<le> cloneMap h ns a"
  by (simp add: cloneMap_def)

lemma cloneMap_inj:
  "a \<in> set ns \<Longrightarrow> b \<in> set ns \<Longrightarrow> cloneMap h ns a = cloneMap h ns b \<longleftrightarrow> a = b"
  by (auto simp: cloneMap_def dest: indexOf_inj)

text \<open>The first loop.\<close>

lemma cloneNode_loop:
  assumes "distinct ns" and "\<forall>a \<in> set ns. a < count h"
  shows "\<exists>h1 o2n.
      foldl cloneNode (h, g0, []) ns = (h1, g0\<lparr>nodes := nodes g0 @ map (cloneMap h ns) ns\<rparr>, o2n) \<and>
      count h1 = count h + length ns \<and>
      (\<forall>a. map_of o2n a = (if a \<in> set ns then Some (cloneMap h ns a) else None)) \<and>
      (\<forall>a < count h. cells h1 a = cells h a) \<and>
      (\<forall>a \<in> set ns. cells h1 (cloneMap h ns a) = copyNode (cells h a))"
  using assms
proof (induction ns rule: rev_induct)
  case Nil
  then show ?case by simp
next
  case (snoc n ns)
  then obtain h1 o2n where
    loop: "foldl cloneNode (h, g0, []) ns = (h1, g0\<lparr>nodes := nodes g0 @ map (cloneMap h ns) ns\<rparr>, o2n)"
    and cnt: "count h1 = count h + length ns"
    and o2n: "\<And>a. map_of o2n a = (if a \<in> set ns then Some (cloneMap h ns a) else None)"
    and old: "\<And>a. a < count h \<Longrightarrow> cells h1 a = cells h a"
    and new: "\<And>a. a \<in> set ns \<Longrightarrow> cells h1 (cloneMap h ns a) = copyNode (cells h a)"
    by auto
  from snoc.prems have n: "n \<notin> set ns" "n < count h" by auto
  let ?h2 = "\<lparr>cells = (cells h1)(count h1 := copyNode (cells h1 n)), count = Suc (count h1)\<rparr>"
  let ?o = "AList.update n (count h1) o2n"
  have same: "cloneMap h (ns @ [n]) a = cloneMap h ns a" if "a \<in> set ns" for a
    using that by (simp add: cloneMap_def indexOf_append)
  have last: "cloneMap h (ns @ [n]) n = count h1"
    using n by (simp add: cloneMap_def indexOf_append cnt)
  have maps: "map (cloneMap h (ns @ [n])) ns = map (cloneMap h ns) ns"
    by (intro map_cong) (auto simp: same)
  have step: "foldl cloneNode (h, g0, []) (ns @ [n]) =
      (?h2, g0\<lparr>nodes := nodes g0 @ map (cloneMap h (ns @ [n])) (ns @ [n])\<rparr>, ?o)"
    by (simp add: loop cloneNode_def alloc_def copyNode_def maps last Let_def)
  have "count ?h2 = count h + length (ns @ [n])" by (simp add: cnt)
  moreover have "\<forall>a. map_of ?o a = (if a \<in> set (ns @ [n]) then Some (cloneMap h (ns @ [n]) a) else None)"
    using n by (auto simp: update_conv' o2n last same)
  moreover have "\<forall>a < count h. cells ?h2 a = cells h a"
    by (simp add: old cnt)
  moreover have "\<forall>a \<in> set (ns @ [n]). cells ?h2 (cloneMap h (ns @ [n]) a) = copyNode (cells h a)"
  proof
    fix a assume a: "a \<in> set (ns @ [n])"
    show "cells ?h2 (cloneMap h (ns @ [n]) a) = copyNode (cells h a)"
    proof (cases "a = n")
      case True
      with n old show ?thesis by (simp add: last)
    next
      case False
      with a have "a \<in> set ns" by simp
      moreover from this have "cloneMap h ns a \<noteq> count h1"
        using indexOf_less [of a ns] by (simp add: cloneMap_def cnt)
      ultimately show ?thesis by (simp add: same new)
    qed
  qed
  ultimately show ?case using step by blast
qed

text \<open>The heads and the tails.\<close>

lemma update_fresh_key: "k \<notin> fst ` set al \<Longrightarrow> AList.update k v al = al @ [(k, v)]"
  by (induction al) auto

lemma cloneRefs_map:
  assumes "distinct (map fst refs)"
      and "\<forall>e \<in> set refs. map_of o2n (snd e) = Some (f (snd e))"
  shows "cloneRefs o2n [] refs = map (\<lambda>e. (fst e, f (snd e))) refs"
  using assms unfolding cloneRefs_def
proof (induction refs rule: rev_induct)
  case Nil
  then show ?case by simp
next
  case (snoc r refs)
  obtain k a where r: "r = (k, a)" by (cases r)
  from snoc.prems r have "k \<notin> fst ` set (map (\<lambda>e. (fst e, f (snd e))) refs)"
    by (auto simp: image_iff)
  from update_fresh_key [OF this] snoc r show ?case by simp
qed

text \<open>
  The last loop. \<open>P\<close> are the nodes whose neighbours have been copied, and \<open>C a\<close> are
  the children of \<open>a\<close> whose edge has been copied.
\<close>

definition edges_inv :: "heap \<Rightarrow> nat list \<Rightarrow> nat set \<Rightarrow> (nat \<Rightarrow> nat list) \<Rightarrow> heap \<Rightarrow> bool" where
  "edges_inv h ns P C hc =
     ((\<forall>a < count h. cells hc a = cells h a) \<and>
      (\<forall>a \<in> set ns.
          logEvents (cells hc (cloneMap h ns a)) = logEvents (cells h a) \<and>
          host (cells hc (cloneMap h ns a)) = host (cells h a) \<and>
          isHeadInner (cells hc (cloneMap h ns a)) = isHeadInner (cells h a) \<and>
          isTailInner (cells hc (cloneMap h ns a)) = isTailInner (cells h a) \<and>
          prev (cells hc (cloneMap h ns a)) =
            (if a \<in> P then map_option (cloneMap h ns) (prev (cells h a)) else None) \<and>
          next (cells hc (cloneMap h ns a)) =
            (if a \<in> P then map_option (cloneMap h ns) (next (cells h a)) else None) \<and>
          children (cells hc (cloneMap h ns a)) = map (cloneMap h ns) (C a) \<and>
          (\<forall>k. map_of (hostToParent (cells hc (cloneMap h ns a))) k =
                (case map_of (hostToParent (cells h a)) k of
                   None \<Rightarrow> None
                 | Some p \<Rightarrow> if a \<in> set (C p) then Some (cloneMap h ns p) else None))))"

lemma wf_graph_at: "wf_graph h g \<Longrightarrow> a \<in> set (nodes g) \<Longrightarrow> node_wf h (nodes g) a"
  by (simp add: wf_graph_def)

lemma wf_graph_node: "wf_graph h g \<Longrightarrow> a \<in> set (nodes g) \<Longrightarrow> a < count h"
  by (drule (1) wf_graph_at) (simp add: node_wf_def)

lemma wf_graph_prev:
  "wf_graph h g \<Longrightarrow> a \<in> set (nodes g) \<Longrightarrow> prev (cells h a) = Some p \<Longrightarrow> p \<in> set (nodes g)"
  by (drule (1) wf_graph_at) (simp add: node_wf_def)

lemma wf_graph_next:
  "wf_graph h g \<Longrightarrow> a \<in> set (nodes g) \<Longrightarrow> next (cells h a) = Some p \<Longrightarrow> p \<in> set (nodes g)"
  by (drule (1) wf_graph_at) (simp add: node_wf_def)

lemma wf_graph_children: "wf_graph h g \<Longrightarrow> a \<in> set (nodes g) \<Longrightarrow> distinct (children (cells h a))"
  by (drule (1) wf_graph_at) (simp add: node_wf_def)

lemma wf_graph_parents:
  "wf_graph h g \<Longrightarrow> a \<in> set (nodes g) \<Longrightarrow> distinct (map fst (hostToParent (cells h a)))"
  by (drule (1) wf_graph_at) (simp add: node_wf_def)

lemma wf_graph_child:
  assumes "wf_graph h g" and "a \<in> set (nodes g)" and "c \<in> set (children (cells h a))"
  shows "c \<in> set (nodes g)" and "map_of (hostToParent (cells h c)) (host (cells h a)) = Some a"
proof -
  from wf_graph_at [OF assms(1,2)] assms(3)
  have c: "c \<in> set (nodes g)" and m: "(host (cells h a), a) \<in> set (hostToParent (cells h c))"
    by (simp_all add: node_wf_def)
  from c show "c \<in> set (nodes g)" .
  from wf_graph_parents [OF assms(1) c] m
  show "map_of (hostToParent (cells h c)) (host (cells h a)) = Some a" by simp
qed

lemma wf_graph_parent:
  assumes "wf_graph h g" and "a \<in> set (nodes g)" and "map_of (hostToParent (cells h a)) k = Some p"
  shows "p \<in> set (nodes g)" and "host (cells h p) = k" and "a \<in> set (children (cells h p))"
proof -
  from assms(3) have e: "(k, p) \<in> set (hostToParent (cells h a))" by (rule map_of_SomeD)
  from wf_graph_at [OF assms(1,2)]
  have "\<forall>e \<in> set (hostToParent (cells h a)).
          snd e \<in> set (nodes g) \<and> host (cells h (snd e)) = fst e \<and> a \<in> set (children (cells h (snd e)))"
    by (simp add: node_wf_def)
  from bspec [OF this e]
  show "p \<in> set (nodes g)" "host (cells h p) = k" "a \<in> set (children (cells h p))"
    by simp_all
qed

lemma addChild_first_parent:
  assumes "map_of (hostToParent (cells h c)) (host (cells h p)) = None"
  shows "addChild p c h =
     modify p (\<lambda>n. n\<lparr>children := children n @ [c]\<rparr>)
       (modify c (\<lambda>n. n\<lparr>hostToParent := AList.update (host (cells h p)) p (hostToParent n)\<rparr>) h)"
  using assms by (simp add: addChild_def Let_def)

lemma edges_inv_prev_next:
  assumes wf: "wf_graph h g"
      and inv: "edges_inv h (nodes g) P C hc"
      and a: "a \<in> set (nodes g)" "a \<notin> P"
      and o2n: "\<And>x. map_of o2n x = (if x \<in> set (nodes g) then Some (cloneMap h (nodes g) x) else None)"
      and h1: "h1 = (case prev (cells hc a) of
                       None \<Rightarrow> hc
                     | Some p \<Rightarrow> modify (cloneMap h (nodes g) a) (\<lambda>n. n\<lparr>prev := map_of o2n p\<rparr>) hc)"
      and h2: "h2 = (case next (cells h1 a) of
                       None \<Rightarrow> h1
                     | Some p \<Rightarrow> modify (cloneMap h (nodes g) a) (\<lambda>n. n\<lparr>next := map_of o2n p\<rparr>) h1)"
  shows "edges_inv h (nodes g) (insert a P) C h2 \<and> cells h2 a = cells h a"
proof -
  let ?f = "cloneMap h (nodes g)"
  from wf a(1) have lt: "a < count h" by (rule wf_graph_node)
  with inv have old: "cells hc a = cells h a" by (simp add: edges_inv_def)
  from lt have ne: "?f a \<noteq> a" using cloneMap_fresh [of h "nodes g" a] by simp
  from inv a have pn: "prev (cells hc (?f a)) = None" "next (cells hc (?f a)) = None"
    by (simp_all add: edges_inv_def)
  have p: "map_of o2n p = Some (?f p)" if "prev (cells h a) = Some p" for p
    using wf_graph_prev [OF wf a(1) that] by (simp add: o2n)
  have n: "map_of o2n p = Some (?f p)" if "next (cells h a) = Some p" for p
    using wf_graph_next [OF wf a(1) that] by (simp add: o2n)
  let ?X = "map_option ?f (prev (cells h a))"
  let ?Y = "map_option ?f (next (cells h a))"
  have c1: "cells h1 = (cells hc)(?f a := (cells hc (?f a))\<lparr>prev := ?X\<rparr>)"
  proof (cases "prev (cells h a)")
    case None
    with h1 old have "h1 = hc" by simp
    moreover have "(cells hc (?f a))\<lparr>prev := None\<rparr> = cells hc (?f a)"
      using pn(1) by (cases "cells hc (?f a)") simp
    ultimately show ?thesis using None by simp
  next
    case (Some q)
    with h1 old p [OF Some] have "h1 = modify (?f a) (\<lambda>n. n\<lparr>prev := Some (?f q)\<rparr>) hc" by simp
    with Some show ?thesis by (simp add: modify_def)
  qed
  with ne old have old1: "cells h1 a = cells h a" by simp
  have c2: "cells h2 = (cells hc)(?f a := (cells hc (?f a))\<lparr>prev := ?X, next := ?Y\<rparr>)"
  proof (cases "next (cells h a)")
    case None
    with h2 old1 have "h2 = h1" by simp
    moreover have "(cells hc (?f a))\<lparr>prev := ?X, next := None\<rparr> = (cells hc (?f a))\<lparr>prev := ?X\<rparr>"
      using pn(2) by (cases "cells hc (?f a)") simp
    ultimately show ?thesis using None c1 by simp
  next
    case (Some q)
    with h2 old1 n [OF Some] have "h2 = modify (?f a) (\<lambda>n. n\<lparr>next := Some (?f q)\<rparr>) h1" by simp
    with Some c1 show ?thesis by (simp add: modify_def)
  qed
  have fresh: "x < count h \<Longrightarrow> x \<noteq> ?f a" for x
    using cloneMap_fresh [of h "nodes g" a] by simp
  have inj: "x \<in> set (nodes g) \<Longrightarrow> ?f x = ?f a \<longleftrightarrow> x = a" for x
    using a(1) by (simp add: cloneMap_inj)
  have "edges_inv h (nodes g) (insert a P) C h2"
    using inv unfolding edges_inv_def c2
    by (auto simp: fresh inj)
  moreover from c2 ne old have "cells h2 a = cells h a" by simp
  ultimately show ?thesis by blast
qed

lemma addChild_flags:
  "isHeadInner (cells (addChild p c h) a) = isHeadInner (cells h a)"
  "isTailInner (cells (addChild p c h) a) = isTailInner (cells h a)"
  by (auto simp: addChild_def modify_def Let_def split: option.splits)

lemma edges_inv_child:
  assumes wf: "wf_graph h g"
      and inv: "edges_inv h (nodes g) P C hc"
      and a: "a \<in> set (nodes g)"
      and c: "c \<in> set (children (cells h a))" "c \<notin> set (C a)"
  shows "edges_inv h (nodes g) P (C(a := C a @ [c]))
           (addChild (cloneMap h (nodes g) a) (cloneMap h (nodes g) c) hc)"
proof -
  let ?f = "cloneMap h (nodes g)"
  let ?k = "host (cells h a)"
  let ?h' = "addChild (?f a) (?f c) hc"
  let ?C = "C(a := C a @ [c])"
  from wf_graph_child [OF wf a c(1)]
  have cN: "c \<in> set (nodes g)" and pa: "map_of (hostToParent (cells h c)) ?k = Some a" by simp_all
  from inv have old: "\<And>x. x < count h \<Longrightarrow> cells hc x = cells h x"
    by (simp add: edges_inv_def)
  from inv a have ka: "host (cells hc (?f a)) = ?k" by (simp add: edges_inv_def)
  from inv cN have pm: "\<And>k. map_of (hostToParent (cells hc (?f c))) k =
      (case map_of (hostToParent (cells h c)) k of
         None \<Rightarrow> None
       | Some p \<Rightarrow> if c \<in> set (C p) then Some (?f p) else None)"
    by (simp add: edges_inv_def)
  from pm [of ?k] pa c(2) have none: "map_of (hostToParent (cells hc (?f c))) (host (cells hc (?f a))) = None"
    by (simp add: ka)
  note first = addChild_first_parent [OF none]
  have ch: "children (cells ?h' x) =
      (if x = ?f a then children (cells hc x) @ [?f c] else children (cells hc x))" for x
    by (simp add: first modify_def)
  have hp: "hostToParent (cells ?h' x) =
      (if x = ?f c then AList.update ?k (?f a) (hostToParent (cells hc (?f c)))
       else hostToParent (cells hc x))" for x
    by (simp add: addChild_hostToParent ka)
  have cell: "cells ?h' x = cells hc x" if "x \<noteq> ?f a" "x \<noteq> ?f c" for x
    using that by (simp add: first modify_def)
  have fresh: "x < count h \<Longrightarrow> x \<noteq> ?f y" for x y
    using cloneMap_fresh [of h "nodes g" y] by simp
  show ?thesis
    unfolding edges_inv_def
  proof (intro conjI allI impI ballI)
    fix x assume "x < count h"
    with cell [of x] fresh [of x] old [of x] show "cells ?h' x = cells h x" by simp
  next
    fix x assume x: "x \<in> set (nodes g)"
    from inv x show "logEvents (cells ?h' (?f x)) = logEvents (cells h x)"
      by (simp add: addChild_frame edges_inv_def)
    from inv x show "host (cells ?h' (?f x)) = host (cells h x)"
      by (simp add: addChild_frame edges_inv_def)
    from inv x show "isHeadInner (cells ?h' (?f x)) = isHeadInner (cells h x)"
      by (simp add: addChild_flags edges_inv_def)
    from inv x show "isTailInner (cells ?h' (?f x)) = isTailInner (cells h x)"
      by (simp add: addChild_flags edges_inv_def)
    from inv x show "prev (cells ?h' (?f x)) =
        (if x \<in> P then map_option ?f (prev (cells h x)) else None)"
      by (simp add: addChild_frame edges_inv_def)
    from inv x show "next (cells ?h' (?f x)) =
        (if x \<in> P then map_option ?f (next (cells h x)) else None)"
      by (simp add: addChild_frame edges_inv_def)
    from inv x have "children (cells hc (?f x)) = map ?f (C x)" by (simp add: edges_inv_def)
    with x a show "children (cells ?h' (?f x)) = map ?f (?C x)"
      by (auto simp: ch cloneMap_inj)
  next
    fix x k assume x: "x \<in> set (nodes g)"
    from inv x have px: "map_of (hostToParent (cells hc (?f x))) k =
      (case map_of (hostToParent (cells h x)) k of
         None \<Rightarrow> None
       | Some p \<Rightarrow> if x \<in> set (C p) then Some (?f p) else None)"
      by (simp add: edges_inv_def)
    show "map_of (hostToParent (cells ?h' (?f x))) k =
      (case map_of (hostToParent (cells h x)) k of
         None \<Rightarrow> None
       | Some p \<Rightarrow> if x \<in> set (?C p) then Some (?f p) else None)"
    proof (cases "x = c")
      case True
      show ?thesis
      proof (cases "k = ?k")
        case True
        with \<open>x = c\<close> pa show ?thesis by (simp add: hp update_conv')
      next
        case False
        have "p \<noteq> a" if "map_of (hostToParent (cells h c)) k = Some p" for p
          using wf_graph_parent(2) [OF wf cN that] False by auto
        with \<open>x = c\<close> False px show ?thesis
          by (auto simp: hp update_conv' split: option.splits)
      qed
    next
      case False
      with x cN have "?f x \<noteq> ?f c" by (simp add: cloneMap_inj)
      with False px show ?thesis by (auto simp: hp split: option.splits)
    qed
  qed
qed

text \<open>The loop over the children of one node.\<close>

lemma cloneChild_loop:
  assumes wf: "wf_graph h g"
      and o2n: "\<And>x. map_of o2n x = (if x \<in> set (nodes g) then Some (cloneMap h (nodes g) x) else None)"
      and a: "a \<in> set (nodes g)"
  shows "edges_inv h (nodes g) P C hc \<Longrightarrow> set cs \<subseteq> set (children (cells h a)) \<Longrightarrow>
         distinct cs \<Longrightarrow> set (C a) \<inter> set cs = {} \<Longrightarrow>
         \<exists>h'. forEach (cloneChild o2n (cloneMap h (nodes g) a)) hc cs = Inr h' \<and>
              edges_inv h (nodes g) P (C(a := C a @ cs)) h'"
proof (induction cs arbitrary: C hc)
  case Nil
  then show ?case by simp
next
  case (Cons c cs)
  let ?f = "cloneMap h (nodes g)"
  let ?C = "C(a := C a @ [c])"
  from Cons.prems have c: "c \<in> set (children (cells h a))" "c \<notin> set (C a)" by auto
  from wf_graph_child(1) [OF wf a c(1)] have step: "cloneChild o2n (?f a) hc c = Inr (addChild (?f a) (?f c) hc)"
    by (simp add: cloneChild_def o2n)
  from edges_inv_child [OF wf Cons.prems(1) a c]
  have inv': "edges_inv h (nodes g) P ?C (addChild (?f a) (?f c) hc)" .
  from Cons.prems have "set cs \<subseteq> set (children (cells h a))" "distinct cs" "set (?C a) \<inter> set cs = {}"
    by auto
  from Cons.IH [OF inv' this] obtain h' where
    loop: "forEach (cloneChild o2n (?f a)) (addChild (?f a) (?f c) hc) cs = Inr h'"
    and inv'': "edges_inv h (nodes g) P (?C(a := ?C a @ cs)) h'" by blast
  have "?C(a := ?C a @ cs) = C(a := C a @ c # cs)" by simp
  with inv'' have "edges_inv h (nodes g) P (C(a := C a @ c # cs)) h'" by (simp only:)
  moreover from step loop have "forEach (cloneChild o2n (?f a)) hc (c # cs) = Inr h'" by simp
  ultimately show ?case by (intro exI [of _ h'] conjI)
qed

text \<open>The loop over the nodes.\<close>

lemma cloneEdges_loop:
  assumes wf: "wf_graph h g"
      and o2n: "\<And>x. map_of o2n x = (if x \<in> set (nodes g) then Some (cloneMap h (nodes g) x) else None)"
  shows "edges_inv h (nodes g) P C hc \<Longrightarrow> set rest \<subseteq> set (nodes g) \<Longrightarrow> distinct rest \<Longrightarrow>
         P \<inter> set rest = {} \<Longrightarrow> \<forall>a \<in> set rest. C a = [] \<Longrightarrow>
         \<exists>h'. forEach (cloneEdges o2n) hc rest = Inr h' \<and>
              edges_inv h (nodes g) (P \<union> set rest)
                (\<lambda>x. if x \<in> set rest then children (cells h x) else C x) h'"
proof (induction rest arbitrary: P C hc)
  case Nil
  then show ?case by simp
next
  case (Cons a rest)
  let ?f = "cloneMap h (nodes g)"
  from Cons.prems have a: "a \<in> set (nodes g)" "a \<notin> P" "C a = []" by auto
  define h1 where "h1 = (case prev (cells hc a) of
                       None \<Rightarrow> hc
                     | Some p \<Rightarrow> modify (?f a) (\<lambda>n. n\<lparr>prev := map_of o2n p\<rparr>) hc)"
  define h2 where "h2 = (case next (cells h1 a) of
                       None \<Rightarrow> h1
                     | Some p \<Rightarrow> modify (?f a) (\<lambda>n. n\<lparr>next := map_of o2n p\<rparr>) h1)"
  from edges_inv_prev_next [OF wf Cons.prems(1) a(1,2) o2n h1_def h2_def]
  have inv2: "edges_inv h (nodes g) (insert a P) C h2" and cell: "cells h2 a = cells h a" by simp_all
  have step: "cloneEdges o2n hc a = forEach (cloneChild o2n (?f a)) h2 (children (cells h a))"
    using a(1) by (simp add: cloneEdges_def o2n Let_def h1_def [symmetric] h2_def [symmetric] cell)
  from wf_graph_children [OF wf a(1)] a(3)
  have "set (children (cells h a)) \<subseteq> set (children (cells h a))" "distinct (children (cells h a))"
    "set (C a) \<inter> set (children (cells h a)) = {}" by simp_all
  from cloneChild_loop [OF wf o2n a(1) inv2 this] a(3) obtain h3 where
    h3: "forEach (cloneChild o2n (?f a)) h2 (children (cells h a)) = Inr h3"
    and inv3: "edges_inv h (nodes g) (insert a P) (C(a := children (cells h a))) h3" by auto
  let ?C = "C(a := children (cells h a))"
  from Cons.prems have "set rest \<subseteq> set (nodes g)" "distinct rest" "insert a P \<inter> set rest = {}"
    "\<forall>x \<in> set rest. ?C x = []" by auto
  from Cons.IH [OF inv3 this] obtain h' where
    h': "forEach (cloneEdges o2n) h3 rest = Inr h'"
    and inv': "edges_inv h (nodes g) (insert a P \<union> set rest)
                (\<lambda>x. if x \<in> set rest then children (cells h x) else ?C x) h'" by blast
  have "(\<lambda>x. if x \<in> set rest then children (cells h x) else ?C x) =
      (\<lambda>x. if x \<in> set (a # rest) then children (cells h x) else C x)"
    by (auto simp: fun_eq_iff)
  moreover have "insert a P \<union> set rest = P \<union> set (a # rest)" by auto
  ultimately have "edges_inv h (nodes g) (P \<union> set (a # rest))
      (\<lambda>x. if x \<in> set (a # rest) then children (cells h x) else C x) h'"
    using inv' by simp
  moreover have "forEach (cloneEdges o2n) hc (a # rest) = Inr h'"
    using step h3 h' by simp
  ultimately show ?case by blast
qed

lemma ModelGraph_no_events: "ModelGraph h [] = Some (Inr (new_builder h))"
  by (simp add: ModelGraph_def initHosts_def initPrevNext_def initParentChild_def new_builder_def
      forIn_def)

lemma edges_inv_start:
  assumes "\<forall>a < count h. cells h1 a = cells h a"
      and "\<forall>a \<in> set ns. cells h1 (cloneMap h ns a) = copyNode (cells h a)"
  shows "edges_inv h ns {} (\<lambda>_. []) h1"
  using assms unfolding edges_inv_def
  by (auto simp: copyNode_def new_ModelNode_def split: option.splits)

text \<open>
  C7. The clone of a well-formed graph \<open>g\<close> is a graph \<open>g'\<close> with the same host list
  and one new node \<open>cloneMap h (nodes g) a\<close> for every node \<open>a\<close> of \<open>g\<close>, in the same
  order. The correspondence is one to one, and no node of \<open>g'\<close> is a node of \<open>g\<close>. The
  heads and tails of \<open>g'\<close> are the new nodes of the heads and tails of \<open>g\<close>; the new node
  of \<open>a\<close> has the events, host and sentinel flags of \<open>a\<close>, and its \<open>prev\<close>, \<open>next\<close>,
  children and per-host parents are the new nodes of those of \<open>a\<close>. The nodes of \<open>g\<close>
  are left as they were.
\<close>

theorem clone_structure:
  assumes wf: "wf_graph h g"
  shows "\<exists>h' g'. clone h g = Some (Inr (h', g')) \<and>
      hosts g' = hosts g \<and>
      nodes g' = map (cloneMap h (nodes g)) (nodes g) \<and>
      length (nodes g') = length (nodes g) \<and>
      inj_on (cloneMap h (nodes g)) (set (nodes g)) \<and>
      set (nodes g') \<inter> set (nodes g) = {} \<and>
      hostToHead g' = map (\<lambda>e. (fst e, cloneMap h (nodes g) (snd e))) (hostToHead g) \<and>
      hostToTail g' = map (\<lambda>e. (fst e, cloneMap h (nodes g) (snd e))) (hostToTail g) \<and>
      (\<forall>a \<in> set (nodes g).
          cells h' a = cells h a \<and>
          logEvents (cells h' (cloneMap h (nodes g) a)) = logEvents (cells h a) \<and>
          host (cells h' (cloneMap h (nodes g) a)) = host (cells h a) \<and>
          isHeadInner (cells h' (cloneMap h (nodes g) a)) = isHeadInner (cells h a) \<and>
          isTailInner (cells h' (cloneMap h (nodes g) a)) = isTailInner (cells h a) \<and>
          prev (cells h' (cloneMap h (nodes g) a)) = map_option (cloneMap h (nodes g)) (prev (cells h a)) \<and>
          next (cells h' (cloneMap h (nodes g) a)) = map_option (cloneMap h (nodes g)) (next (cells h a)) \<and>
          children (cells h' (cloneMap h (nodes g) a)) = map (cloneMap h (nodes g)) (children (cells h a)) \<and>
          (\<forall>k. map_of (hostToParent (cells h' (cloneMap h (nodes g) a))) k =
                map_option (cloneMap h (nodes g)) (map_of (hostToParent (cells h a)) k)))"
proof -
  let ?ns = "nodes g"
  let ?f = "cloneMap h ?ns"
  let ?g0 = "new_graph\<lparr>hosts := hosts g\<rparr>"
  from wf have d: "distinct ?ns" by (simp add: wf_graph_def)
  from wf have lt: "\<forall>a \<in> set ?ns. a < count h" by (auto dest: wf_graph_node)
  from cloneNode_loop [OF d lt, of ?g0] obtain h1 o2n where
    loop1: "foldl cloneNode (h, ?g0, []) ?ns = (h1, ?g0\<lparr>nodes := nodes ?g0 @ map ?f ?ns\<rparr>, o2n)"
    and o2n: "\<And>a. map_of o2n a = (if a \<in> set ?ns then Some (?f a) else None)"
    and old1: "\<forall>a < count h. cells h1 a = cells h a"
    and new1: "\<forall>a \<in> set ?ns. cells h1 (?f a) = copyNode (cells h a)"
    by blast
  have inv0: "edges_inv h ?ns {} (\<lambda>_. []) h1"
    by (rule edges_inv_start [OF old1 new1])
  from cloneEdges_loop [OF wf o2n inv0, of ?ns] d obtain h2 where
    loop2: "forEach (cloneEdges o2n) h1 ?ns = Inr h2"
    and inv: "edges_inv h ?ns (set ?ns) (\<lambda>x. if x \<in> set ?ns then children (cells h x) else []) h2"
    by auto
  let ?g' = "?g0\<lparr>nodes := nodes ?g0 @ map ?f ?ns,
                 hostToHead := cloneRefs o2n [] (hostToHead g),
                 hostToTail := cloneRefs o2n [] (hostToTail g)\<rparr>"
  have loop1': "foldl cloneNode
      (h, \<lparr>hosts = hosts g, hostToHead = [], hostToTail = [], nodes = []\<rparr>, []) ?ns =
      (h1, \<lparr>hosts = hosts g, hostToHead = [], hostToTail = [], nodes = map ?f ?ns\<rparr>, o2n)"
    using loop1 by (simp add: new_graph_def)
  have cl: "clone h g = Some (Inr (h2, ?g'))"
    by (simp add: clone_def ModelGraph_no_events new_builder_def new_graph_def Let_def loop1' loop2)
  from wf have heads: "cloneRefs o2n [] (hostToHead g) = map (\<lambda>e. (fst e, ?f (snd e))) (hostToHead g)"
    by (intro cloneRefs_map) (simp_all add: wf_graph_def o2n)
  from wf have tails: "cloneRefs o2n [] (hostToTail g) = map (\<lambda>e. (fst e, ?f (snd e))) (hostToTail g)"
    by (intro cloneRefs_map) (simp_all add: wf_graph_def o2n)
  have inj: "inj_on ?f (set ?ns)"
    by (rule inj_onI) (simp add: cloneMap_inj)
  have disj: "set (map ?f ?ns) \<inter> set ?ns = {}"
    using lt cloneMap_fresh [of h ?ns] by (auto simp: not_less [symmetric])
  have nodes: "\<forall>a \<in> set ?ns.
          cells h2 a = cells h a \<and>
          logEvents (cells h2 (?f a)) = logEvents (cells h a) \<and>
          host (cells h2 (?f a)) = host (cells h a) \<and>
          isHeadInner (cells h2 (?f a)) = isHeadInner (cells h a) \<and>
          isTailInner (cells h2 (?f a)) = isTailInner (cells h a) \<and>
          prev (cells h2 (?f a)) = map_option ?f (prev (cells h a)) \<and>
          next (cells h2 (?f a)) = map_option ?f (next (cells h a)) \<and>
          children (cells h2 (?f a)) = map ?f (children (cells h a)) \<and>
          (\<forall>k. map_of (hostToParent (cells h2 (?f a))) k =
                map_option ?f (map_of (hostToParent (cells h a)) k))"
  proof
    fix a assume a: "a \<in> set ?ns"
    with lt inv have 1: "cells h2 a = cells h a" by (simp add: edges_inv_def)
    from a inv have 2: "logEvents (cells h2 (?f a)) = logEvents (cells h a)"
      "host (cells h2 (?f a)) = host (cells h a)"
      "isHeadInner (cells h2 (?f a)) = isHeadInner (cells h a)"
      "isTailInner (cells h2 (?f a)) = isTailInner (cells h a)"
      "prev (cells h2 (?f a)) = map_option ?f (prev (cells h a))"
      "next (cells h2 (?f a)) = map_option ?f (next (cells h a))"
      "children (cells h2 (?f a)) = map ?f (children (cells h a))"
      by (simp_all add: edges_inv_def)
    have 3: "map_of (hostToParent (cells h2 (?f a))) k =
        map_option ?f (map_of (hostToParent (cells h a)) k)" for k
    proof (cases "map_of (hostToParent (cells h a)) k")
      case None
      with a inv show ?thesis by (simp add: edges_inv_def)
    next
      case (Some p)
      from wf_graph_parent [OF wf a Some] have "p \<in> set ?ns" "a \<in> set (children (cells h p))"
        by simp_all
      with a inv Some show ?thesis by (simp add: edges_inv_def)
    qed
    from 1 2 3 show "cells h2 a = cells h a \<and>
          logEvents (cells h2 (?f a)) = logEvents (cells h a) \<and>
          host (cells h2 (?f a)) = host (cells h a) \<and>
          isHeadInner (cells h2 (?f a)) = isHeadInner (cells h a) \<and>
          isTailInner (cells h2 (?f a)) = isTailInner (cells h a) \<and>
          prev (cells h2 (?f a)) = map_option ?f (prev (cells h a)) \<and>
          next (cells h2 (?f a)) = map_option ?f (next (cells h a)) \<and>
          children (cells h2 (?f a)) = map ?f (children (cells h a)) \<and>
          (\<forall>k. map_of (hostToParent (cells h2 (?f a))) k =
                map_option ?f (map_of (hostToParent (cells h a)) k))"
      by blast
  qed
  have g': "hosts ?g' = hosts g" "nodes ?g' = map ?f ?ns" "length (nodes ?g') = length ?ns"
    "hostToHead ?g' = map (\<lambda>e. (fst e, ?f (snd e))) (hostToHead g)"
    "hostToTail ?g' = map (\<lambda>e. (fst e, ?f (snd e))) (hostToTail g)"
    "set (nodes ?g') \<inter> set ?ns = {}"
    using heads tails disj by (simp_all add: new_graph_def)
  show ?thesis
    apply (intro exI [of _ h2] exI [of _ ?g'] conjI)
              apply (rule cl)
             apply (rule g'(1))
            apply (rule g'(2))
           apply (rule g'(3))
          apply (rule inj)
         apply (rule g'(6))
        apply (rule g'(4))
       apply (rule g'(5))
      apply (rule nodes)
    done
qed

text \<open>
  Sample input: one event on host \<open>a\<close>, and one on host \<open>b\<close> that has seen it. The
  graph the constructor builds has the nodes 0 to 5, and the edge from node 0 to node 3.
\<close>

definition one_edge :: "LogEvent list" where
  "one_edge = [event_at ''a'' 1 [(''a'', 1)], event_at ''b'' 1 [(''b'', 1), (''a'', 1)]]"

definition built :: "LogEvent list \<Rightarrow> builder" where
  "built evs = (case ModelGraph empty_heap evs of Some (Inr b) \<Rightarrow> b | _ \<Rightarrow> new_builder empty_heap)"

lemma built_one_edge:
  "nodes (mg (built one_edge)) = [0, 1, 2, 3, 4, 5]"
  "hosts (mg (built one_edge)) = [''a'', ''b'']"
  "hostToHead (mg (built one_edge)) = [(''a'', 1), (''b'', 4)]"
  "hostToTail (mg (built one_edge)) = [(''a'', 2), (''b'', 5)]"
  "count (hp (built one_edge)) = 6"
  by (simp_all add: built_def one_edge_def initHosts_eval initPrevNext_eval initParentChild_eval)

lemma built_one_edge_cells:
  "map (\<lambda>a. (prev (cells (hp (built one_edge)) a), next (cells (hp (built one_edge)) a),
              children (cells (hp (built one_edge)) a), hostToParent (cells (hp (built one_edge)) a),
              host (cells (hp (built one_edge)) a))) [0, 1, 2, 3, 4, 5] =
     [(Some 1, Some 2, [3], [], ''a''), (None, Some 0, [], [], ''a''), (Some 0, None, [], [], ''a''),
      (Some 4, Some 5, [], [(''a'', 0)], ''b''), (None, Some 3, [], [], ''b''),
      (Some 3, None, [], [], ''b'')]"
  by (simp add: built_def one_edge_def initHosts_eval initPrevNext_eval initParentChild_eval)

lemma wf_graph_one_edge: "wf_graph (hp (built one_edge)) (mg (built one_edge))"
  using built_one_edge_cells
  by (simp add: wf_graph_def node_wf_def built_one_edge)

theorem clone_structure_witness:
  "\<exists>h' g'. clone (hp (built one_edge)) (mg (built one_edge)) = Some (Inr (h', g')) \<and>
      hosts g' = [''a'', ''b''] \<and> nodes g' = [6, 7, 8, 9, 10, 11] \<and>
      hostToHead g' = [(''a'', 7), (''b'', 10)] \<and>
      prev (cells h' 9) = Some 10 \<and> children (cells h' 6) = [9] \<and>
      map_of (hostToParent (cells h' 9)) ''a'' = Some 6 \<and>
      children (cells h' 0) = [3]"
proof -
  let ?h = "hp (built one_edge)"
  let ?g = "mg (built one_edge)"
  have f: "map (cloneMap ?h (nodes ?g)) [0, 1, 2, 3, 4, 5] = [6, 7, 8, 9, 10, 11]"
    by (simp add: cloneMap_def built_one_edge)
  from clone_structure [OF wf_graph_one_edge] obtain h' g' where
    c: "clone ?h ?g = Some (Inr (h', g'))"
    and g': "hosts g' = hosts ?g" "nodes g' = map (cloneMap ?h (nodes ?g)) (nodes ?g)"
      "hostToHead g' = map (\<lambda>e. (fst e, cloneMap ?h (nodes ?g) (snd e))) (hostToHead ?g)"
    and n: "\<forall>a \<in> set (nodes ?g).
          cells h' a = cells ?h a \<and>
          logEvents (cells h' (cloneMap ?h (nodes ?g) a)) = logEvents (cells ?h a) \<and>
          host (cells h' (cloneMap ?h (nodes ?g) a)) = host (cells ?h a) \<and>
          isHeadInner (cells h' (cloneMap ?h (nodes ?g) a)) = isHeadInner (cells ?h a) \<and>
          isTailInner (cells h' (cloneMap ?h (nodes ?g) a)) = isTailInner (cells ?h a) \<and>
          prev (cells h' (cloneMap ?h (nodes ?g) a)) = map_option (cloneMap ?h (nodes ?g)) (prev (cells ?h a)) \<and>
          next (cells h' (cloneMap ?h (nodes ?g) a)) = map_option (cloneMap ?h (nodes ?g)) (next (cells ?h a)) \<and>
          children (cells h' (cloneMap ?h (nodes ?g) a)) = map (cloneMap ?h (nodes ?g)) (children (cells ?h a)) \<and>
          (\<forall>k. map_of (hostToParent (cells h' (cloneMap ?h (nodes ?g) a))) k =
                map_option (cloneMap ?h (nodes ?g)) (map_of (hostToParent (cells ?h a)) k))"
    by blast
  from n [rule_format, of 3] n [rule_format, of 0] f built_one_edge_cells
  have "prev (cells h' 9) = Some 10 \<and> children (cells h' 6) = [9] \<and>
      map_of (hostToParent (cells h' 9)) ''a'' = Some 6 \<and> children (cells h' 0) = [3]"
    by (simp add: built_one_edge)
  moreover from g' f have "hosts g' = [''a'', ''b''] \<and> nodes g' = [6, 7, 8, 9, 10, 11] \<and>
      hostToHead g' = [(''a'', 7), (''b'', 10)]"
    by (simp add: built_one_edge)
  ultimately show ?thesis using c by blast
qed

section \<open>The execution parser\<close>

text \<open>
  Sample inputs. \<open>sample_json\<close> is \<^verbatim>\<open>JSON.parse\<close> on the clock strings used below: it
  parses \<^verbatim>\<open>{"a":1}\<close>, and throws on the empty string, on \<^verbatim>\<open>{\"a\":}\<close> and on \<^verbatim>\<open>{"a":}\<close>.
  \<open>sample_regexp\<close> has the groups \<open>event\<close>, \<open>host\<close>, \<open>clock\<close> and \<open>tag\<close>; it matches
  once in \<open>line_a\<close> and once in \<open>line_b\<close>.
\<close>

definition clock_a1 :: string where
  "clock_a1 = [CHR ''{'', CHR 0x22, CHR ''a'', CHR 0x22, CHR '':'', CHR ''1'', CHR ''}'']"

definition clock_escaped_bad :: string where
  "clock_escaped_bad =
     [CHR ''{'', CHR 0x5C, CHR 0x22, CHR ''a'', CHR 0x5C, CHR 0x22, CHR '':'', CHR ''}'']"

definition clock_bad :: string where
  "clock_bad = [CHR ''{'', CHR 0x22, CHR ''a'', CHR 0x22, CHR '':'', CHR ''}'']"

definition sample_json :: "string \<Rightarrow> json option" where
  "sample_json s = (if s = clock_a1 then Some (JObject [(''a'', 1)]) else None)"

definition sample_env :: env where
  "sample_env = \<lparr>jsonParse = sample_json, parseZapLogs = (\<lambda>s. Inr [])\<rparr>"

definition line_a :: string where
  "line_a = ''a '' @ clock_a1 @ '' INFO started''"

definition line_b :: string where
  "line_b = ''a '' @ clock_a1 @ '' WARN stopped''"

definition match_a :: regmatch where
  "match_a = \<lparr>index = 0, groups = [(''host'', Str ''a''), (''clock'', Str clock_a1),
                                    (''tag'', Str ''INFO''), (''event'', Str ''started'')]\<rparr>"

definition match_b :: regmatch where
  "match_b = \<lparr>index = 0, groups = [(''host'', Str ''a''), (''clock'', Str clock_a1),
                                    (''tag'', Str ''WARN''), (''event'', Str ''stopped'')]\<rparr>"

definition sample_regexp :: NamedRegExp where
  "sample_regexp =
     \<lparr>getNames = [''host'', ''clock'', ''tag'', ''event''], isZap = False,
      execAll = (\<lambda>s. if trim s = line_a then [match_a] else if trim s = line_b then [match_b] else []),
      splitBy = (\<lambda>s. [s])\<rparr>"

lemmas parser_eval =
  parseMatch_def parseStringTimestamp_def parseJsonTimestamp_def new_VectorTimestamp_def
  matchFields_def capture_def toKey_def lineOf_def sample_env_def sample_json_def
  sample_regexp_def match_a_def match_b_def clock_a1_def clock_bad_def clock_escaped_bad_def
  line_a_def line_b_def Let_def



lemma parseJsonTimestamp_ownHost:
  "parseJsonTimestamp c h = Inr vt \<Longrightarrow> ownHost vt = h"
  by (auto simp: parseJsonTimestamp_def new_VectorTimestamp_def
      split: option.splits json.splits if_splits)

lemma parseStringTimestamp_ownHost:
  "parseStringTimestamp en c h ln = Inr vt \<Longrightarrow> ownHost vt = h"
  by (auto simp: parseStringTimestamp_def Let_def parseJsonTimestamp_ownHost
      split: jsval.splits option.splits)






lemma parseMatches_append:
  "parseMatches en regexp rawString (ms1 @ ms2) =
     (case parseMatches en regexp rawString ms1 of
        Inl e \<Rightarrow> Inl e
      | Inr evs1 \<Rightarrow>
          (case parseMatches en regexp rawString ms2 of
             Inl e \<Rightarrow> Inl e
           | Inr evs2 \<Rightarrow> Inr (evs1 @ evs2)))"
  by (induction ms1) (auto split: sum.splits)

text \<open>
  C9, as the code has it. Let the matches before \<open>m\<close> parse, and let the clock capture
  of \<open>m\<close> be a string on which both \<^verbatim>\<open>JSON.parse\<close> attempts throw: on the string, and
  on the string with every backslash-quote replaced by a quote. Then the Execution
  Parser raises \<open>TimestampFormatError\<close>. If the replaced string is not empty, the error
  carries it as the annotation and is user-friendly; if it is empty, the error carries no
  annotation and is not user-friendly.
\<close>

theorem ExecutionParser_clock_unparsable:
  assumes "\<not> isZap regexp"
      and "execAll regexp rawString = ms1 @ m # ms2"
      and "parseMatches en regexp rawString ms1 = Inr evs"
      and "capture m ''clock'' = Str s"
      and "jsonParse en s = None"
      and "jsonParse en (unescapeQuotes s) = None"
  shows "\<exists>n. ExecutionParser en rawString label regexp =
           Inl (TimestampFormatError n
                 (if unescapeQuotes s \<noteq> [] then Some (unescapeQuotes s) else None)
                 (unescapeQuotes s \<noteq> []))"
proof -
  have "parseMatch en regexp rawString m =
      Inl (TimestampFormatError (lineOf rawString (index m) + 1)
            (if unescapeQuotes s \<noteq> [] then Some (unescapeQuotes s) else None)
            (unescapeQuotes s \<noteq> []))"
    using assms(4-6) by (simp add: parseMatch_def parseStringTimestamp_def Let_def)
  then show ?thesis
    using assms(1-3) by (auto simp: ExecutionParser_def parseMatches_append)
qed

text \<open>A regular expression whose only match in \<open>s\<close> has the clock capture \<open>c\<close>.\<close>

definition regexp_with_clock :: "string \<Rightarrow> NamedRegExp" where
  "regexp_with_clock c =
     \<lparr>getNames = [''host'', ''clock'', ''event''], isZap = False,
      execAll = (\<lambda>s. [\<lparr>index = 0, groups = [(''host'', Str ''a''), (''clock'', Str c),
                                            (''event'', Str ''started'')]\<rparr>]),
      splitBy = (\<lambda>s. [s])\<rparr>"

theorem ExecutionParser_clock_unparsable_witness:
  "\<exists>n. ExecutionParser sample_env (''a '' @ clock_escaped_bad @ '' started'') (Str [])
          (regexp_with_clock clock_escaped_bad) =
        Inl (TimestampFormatError n (Some clock_bad) True)"
proof -
  have u: "unescapeQuotes clock_escaped_bad = clock_bad"
    by (simp add: clock_escaped_bad_def clock_bad_def)
  from ExecutionParser_clock_unparsable [where regexp = "regexp_with_clock clock_escaped_bad"
      and en = sample_env and rawString = "''a '' @ clock_escaped_bad @ '' started''"
      and ?ms1.0 = "[]" and ?ms2.0 = "[]" and s = clock_escaped_bad and evs = "[]"
      and m = "\<lparr>index = 0, groups = [(''host'', Str ''a''), (''clock'', Str clock_escaped_bad),
                                        (''event'', Str ''started'')]\<rparr>"
      and label = "Str []"]
  show ?thesis
    by (simp add: u regexp_with_clock_def capture_def sample_env_def sample_json_def
        clock_a1_def clock_bad_def clock_escaped_bad_def)
qed

text \<open>
  The claim as stated fails. On the first line of the input, an empty clock capture
  gives an error with no annotation that is not user-friendly, and whose message names
  line 2; the clock capture \<^verbatim>\<open>{\"a\":}\<close> gives an error that carries \<^verbatim>\<open>{"a":}\<close>, not the
  raw text.
\<close>

theorem ExecutionParser_clock_annotation:
  "ExecutionParser sample_env ''a  started'' (Str []) (regexp_with_clock []) =
     Inl (TimestampFormatError 2 None False) \<and>
   ExecutionParser sample_env (''a '' @ clock_escaped_bad @ '' started'') (Str [])
     (regexp_with_clock clock_escaped_bad) =
     Inl (TimestampFormatError 2 (Some clock_bad) True) \<and>
   clock_bad \<noteq> clock_escaped_bad"
  by (simp add: ExecutionParser_def regexp_with_clock_def parser_eval)

section \<open>The log parser's labels\<close>

text \<open>
  The labels the loop of lines 68 to 77 gives: chunk \<open>j\<close> is kept when it does not trim
  to the empty string, and its label is \<^verbatim>\<open>currLabels[j]\<close>.
\<close>

lemma splitLoop_labels:
  "splitLoop en regexp currLabels i chunks lp = Inr lp' \<Longrightarrow>
   labels lp' = labels lp @
     map fst (filter (\<lambda>(l, c). trim c \<noteq> [])
       (zip (map (labelAt currLabels) [i ..< i + length chunks]) chunks))"
proof (induction chunks arbitrary: i lp)
  case Nil
  then show ?case by simp
next
  case (Cons chunk rest)
  have upt: "[i ..< i + length (chunk # rest)] = i # [Suc i ..< Suc i + length rest]"
    by (simp add: upt_rec)
  show ?case
  proof (cases "trim chunk = []")
    case True
    with Cons.prems have "splitLoop en regexp currLabels (Suc i) rest lp = Inr lp'" by simp
    from Cons.IH [OF this] True show ?thesis by (simp only: upt) simp
  next
    case False
    with Cons.prems obtain ep where
      "splitLoop en regexp currLabels (Suc i) rest
         (lp\<lparr>executions := AList.update (toKey (labelAt currLabels i)) ep (executions lp),
             labels := labels lp @ [labelAt currLabels i]\<rparr>) = Inr lp'"
      by (auto simp: Let_def split: if_splits sum.splits)
    from Cons.IH [OF this] False show ?thesis by (simp only: upt) simp
  qed
qed

text \<open>
  With a \<open>trace\<close> group, and one more chunk than there are delimiter matches, the label
  of a chunk after a delimiter match is that match's \<open>trace\<close> capture. Without a
  \<open>trace\<close> group the label of such a chunk is \<^verbatim>\<open>undefined\<close>: \<^verbatim>\<open>currLabels\<close> has one
  element.
\<close>

lemma labelAt_trace:
  "''trace'' \<in> set (getNames d) \<Longrightarrow> j < length (execAll d raw) \<Longrightarrow>
   labelAt (delimiterLabels d raw) (Suc j) = capture (execAll d raw ! j) ''trace''"
  by (simp add: labelAt_def delimiterLabels_def)

lemma labelAt_no_trace:
  "''trace'' \<notin> set (getNames d) \<Longrightarrow> labelAt (delimiterLabels d raw) (Suc j) = Undefined"
  by (simp add: labelAt_def delimiterLabels_def)

text \<open>A label that names a member of \<^verbatim>\<open>Object.prototype\<close> counts as a duplicate.\<close>

lemma splitLoop_inherited_label:
  "trim chunk \<noteq> [] \<Longrightarrow>
   splitLoop en regexp [Str ''toString''] 0 (chunk # rest) lp =
     Inl (DuplicateExecutionLabelError (Str ''toString''))"
  by (simp add: labelAt_def toKey_def inherited_def)

text \<open>
  Sample input: two executions separated by a line \<^verbatim>\<open>--\<close>, with a delimiter that
  has no \<open>trace\<close> group.
\<close>

definition two_executions :: string where
  "two_executions = line_a @ [CHR 0x0A] @ ''--'' @ [CHR 0x0A] @ line_b"

definition dashes :: NamedRegExp where
  "dashes =
     \<lparr>getNames = [], isZap = False,
      execAll = (\<lambda>s. if s = two_executions then [\<lparr>index = length line_a + 1, groups = []\<rparr>] else []),
      splitBy = (\<lambda>s. if s = two_executions then [line_a @ [CHR 0x0A], [CHR 0x0A] @ line_b] else [s])\<rparr>"

text \<open>
  C4 on that input: the chunk after the delimiter is kept, and its label is
  \<^verbatim>\<open>undefined\<close>, not the empty string.
\<close>

theorem LogParser_label_without_trace:
  "map_sum id labels (LogParser sample_env two_executions (Some dashes) sample_regexp) =
     Inr [Str [], Undefined]"
  by (simp add: LogParser_def two_executions_def dashes_def delimiterLabels_def labelAt_def
      ExecutionParser_def trim_def isWhiteSpace_def parser_eval inherited_def)

text \<open>So the parser returns, and the label of the second execution is not a string.\<close>

theorem LogParser_label_without_trace_witness:
  "\<not> isl (LogParser sample_env two_executions (Some dashes) sample_regexp) \<and>
   labels (projr (LogParser sample_env two_executions (Some dashes) sample_regexp)) ! 1 = Undefined"
  using LogParser_label_without_trace
  by (cases "LogParser sample_env two_executions (Some dashes) sample_regexp") auto

section \<open>The partial order of vector timestamps\<close>

text \<open>
  Modelled from the spec: \<^verbatim>\<open>VectorTimestamp\<close> is not among the sources, and neither is
  \<^verbatim>\<open>comparePartialOrder\<close>. The comparison is pointwise, a host without an entry being
  at time 0: \<open>A \<le> B\<close> pointwise is before or equal, and neither below the other is
  concurrent. It is enough to look at the hosts that have an entry in either clock.
\<close>

datatype ordering = Before | After | Concurrent | Equal

definition timeAt :: "VectorTimestamp \<Rightarrow> string \<Rightarrow> int" where
  "timeAt vt h = (case map_of (clock vt) h of None \<Rightarrow> 0 | Some t \<Rightarrow> t)"

definition leqClock :: "VectorTimestamp \<Rightarrow> VectorTimestamp \<Rightarrow> bool" where
  "leqClock a b = list_all (\<lambda>h. timeAt a h \<le> timeAt b h) (map fst (clock a) @ map fst (clock b))"

definition comparePartialOrder :: "VectorTimestamp \<Rightarrow> VectorTimestamp \<Rightarrow> ordering" where
  "comparePartialOrder a b =
     (if leqClock a b \<and> leqClock b a then Equal
      else if leqClock a b then Before
      else if leqClock b a then After
      else Concurrent)"

fun inverse_ordering :: "ordering \<Rightarrow> ordering" where
  "inverse_ordering Before = After"
| "inverse_ordering After = Before"
| "inverse_ordering Concurrent = Concurrent"
| "inverse_ordering Equal = Equal"

lemma timeAt_outside:
  "h \<notin> fst ` set (clock vt) \<Longrightarrow> timeAt vt h = 0"
  by (simp add: timeAt_def map_of_eq_None_iff [THEN iffD2])

lemma leqClock_pointwise:
  "leqClock a b \<longleftrightarrow> (\<forall>h. timeAt a h \<le> timeAt b h)"
proof
  assume l: "leqClock a b"
  show "\<forall>h. timeAt a h \<le> timeAt b h"
  proof
    fix h
    show "timeAt a h \<le> timeAt b h"
    proof (cases "h \<in> fst ` set (clock a) \<or> h \<in> fst ` set (clock b)")
      case True
      with l show ?thesis by (auto simp: leqClock_def list_all_iff)
    next
      case False
      then show ?thesis by (simp add: timeAt_outside)
    qed
  qed
next
  assume "\<forall>h. timeAt a h \<le> timeAt b h"
  then show "leqClock a b" by (simp add: leqClock_def list_all_iff)
qed

lemma comparePartialOrder_Equal:
  "comparePartialOrder a b = Equal \<longleftrightarrow> (\<forall>h. timeAt a h = timeAt b h)"
  by (auto simp: comparePartialOrder_def leqClock_pointwise order_antisym)

lemma comparePartialOrder_Before:
  "comparePartialOrder a b = Before \<longleftrightarrow>
     (\<forall>h. timeAt a h \<le> timeAt b h) \<and> (\<exists>h. timeAt a h < timeAt b h)"
  unfolding comparePartialOrder_def leqClock_pointwise
  by (auto simp: not_le) (meson leD)+

text \<open>
  C8. \<open>comparePartialOrder b a\<close> is the inverse of \<open>comparePartialOrder a b\<close>: before
  and after are swapped, concurrent and equal are kept. A timestamp compared with
  itself is equal.
\<close>

theorem comparePartialOrder_inverse:
  "comparePartialOrder b a = inverse_ordering (comparePartialOrder a b) \<and>
   comparePartialOrder a a = Equal"
  by (simp add: comparePartialOrder_def leqClock_pointwise)

theorem comparePartialOrder_inverse_witness:
  "comparePartialOrder \<lparr>clock = [(''h1'', 2), (''h2'', 1)], ownHost = ''h1'', ownTime = 2\<rparr>
     \<lparr>clock = [(''h1'', 1)], ownHost = ''h1'', ownTime = 1\<rparr> = After \<and>
   comparePartialOrder \<lparr>clock = [(''h1'', 1)], ownHost = ''h1'', ownTime = 1\<rparr>
     \<lparr>clock = [(''h1'', 2), (''h2'', 1)], ownHost = ''h1'', ownTime = 2\<rparr> = Before"
proof -
  let ?a = "\<lparr>clock = [(''h1'', 1)], ownHost = ''h1'', ownTime = 1\<rparr>"
  let ?b = "\<lparr>clock = [(''h1'', 2), (''h2'', 1)], ownHost = ''h1'', ownTime = 2\<rparr>"
  have "comparePartialOrder ?a ?b = Before"
    by (simp add: comparePartialOrder_def leqClock_def timeAt_def)
  with comparePartialOrder_inverse [of ?b ?a] show ?thesis by simp
qed


end
